theory Spec2Isabelle
  imports Complex_Main "HOL-Library.AList" "HOL-Library.Multiset"
begin

section \<open>Agent pool (agent\_orchestrator.py)\<close>

text \<open>
  The pool keeps its agents in a Python dict. A dict keeps insertion order and assigning to a
  key that is already present replaces the value in place, which is what
  \<^const>\<open>AList.update\<close> does on an association list. The clock reading of
  \<open>datetime.now()\<close> is an explicit argument.
\<close>

record agent_info =
  ag_id :: string
  ag_capabilities :: "string list"
  ag_status :: string
  ag_current_task :: "string option"
  ag_tasks_completed :: int
  ag_registered_time :: int

record AgentPool =
  pool_name :: string
  max_agents :: int
  agents :: "(string \<times> agent_info) list"

definition AgentPool_init :: "string \<Rightarrow> int \<Rightarrow> AgentPool" where
  "AgentPool_init name maxa = \<lparr>pool_name = name, max_agents = maxa, agents = []\<rparr>"

definition register_agent ::
  "AgentPool \<Rightarrow> string \<Rightarrow> string list \<Rightarrow> int \<Rightarrow> bool \<times> AgentPool" where
  "register_agent pool agent_id capabilities now =
     (if int (length (agents pool)) \<ge> max_agents pool then (False, pool)
      else (True, pool\<lparr>agents := AList.update agent_id
              \<lparr>ag_id = agent_id, ag_capabilities = capabilities, ag_status = ''idle'',
               ag_current_task = None, ag_tasks_completed = 0, ag_registered_time = now\<rparr>
              (agents pool)\<rparr>))"

definition get_pool_size :: "AgentPool \<Rightarrow> int" where
  "get_pool_size pool = int (length (agents pool))"

section \<open>Error recovery (fault\_tolerance\_manager.py)\<close>

datatype RecoveryStrategy = RESTART | REASSIGN | FAILOVER | MANUAL

fun strategy_value :: "RecoveryStrategy \<Rightarrow> string" where
  "strategy_value RESTART = ''restart''"
| "strategy_value REASSIGN = ''reassign''"
| "strategy_value FAILOVER = ''failover''"
| "strategy_value MANUAL = ''manual''"

record recovery_entry =
  re_agent_id :: string
  re_strategy :: string
  re_success :: bool
  re_error :: "string option"
  re_timestamp :: int

record ErrorRecovery =
  recovery_history :: "recovery_entry list"

definition ErrorRecovery_init :: ErrorRecovery where
  "ErrorRecovery_init = \<lparr>recovery_history = []\<rparr>"

definition log_recovery_attempt ::
  "ErrorRecovery \<Rightarrow> string \<Rightarrow> RecoveryStrategy \<Rightarrow> bool \<Rightarrow> string option \<Rightarrow> int \<Rightarrow> ErrorRecovery" where
  "log_recovery_attempt er agent_id strategy success err now =
     er\<lparr>recovery_history := recovery_history er @
        [\<lparr>re_agent_id = agent_id, re_strategy = strategy_value strategy,
          re_success = success, re_error = err, re_timestamp = now\<rparr>]\<rparr>"

definition restart_agent ::
  "ErrorRecovery \<Rightarrow> string \<Rightarrow> (string \<times> string) list \<Rightarrow> int \<Rightarrow> bool \<times> ErrorRecovery" where
  "restart_agent er agent_id ctx now = (True, log_recovery_attempt er agent_id RESTART True None now)"

definition reassign_tasks ::
  "ErrorRecovery \<Rightarrow> string \<Rightarrow> (string \<times> string) list \<Rightarrow> int \<Rightarrow> bool \<times> ErrorRecovery" where
  "reassign_tasks er agent_id ctx now = (True, log_recovery_attempt er agent_id REASSIGN True None now)"

definition failover_agent ::
  "ErrorRecovery \<Rightarrow> string \<Rightarrow> (string \<times> string) list \<Rightarrow> int \<Rightarrow> bool \<times> ErrorRecovery" where
  "failover_agent er agent_id ctx now = (True, log_recovery_attempt er agent_id FAILOVER True None now)"

text \<open>
  The three helpers cannot raise, so the \<open>except\<close> branch of \<open>attempt_recovery\<close>
  (which would log a failed attempt) is never entered; the last \<open>else\<close> is the branch
  taken by \<open>MANUAL\<close>.
\<close>

definition attempt_recovery ::
  "ErrorRecovery \<Rightarrow> string \<Rightarrow> RecoveryStrategy \<Rightarrow> (string \<times> string) list \<Rightarrow> int \<Rightarrow> bool \<times> ErrorRecovery" where
  "attempt_recovery er agent_id strategy ctx now =
     (if strategy = RESTART then restart_agent er agent_id ctx now
      else if strategy = REASSIGN then reassign_tasks er agent_id ctx now
      else if strategy = FAILOVER then failover_agent er agent_id ctx now
      else (False, er))"

section \<open>Protocol validation and rate limiting (communication\_protocol.py)\<close>

text \<open>
  A \<open>datetime\<close> has microsecond resolution and is either offset-naive (no \<open>tzinfo\<close>,
  as \<open>datetime.now()\<close> returns it) or offset-aware: the integer is the number of
  microseconds, local for a naive value and UTC for an aware one. Two values of the same
  kind are compared by this number; \<open><\<close> between a naive and an aware value raises
  \<open>TypeError\<close>.
\<close>

datatype datetime = Naive int | Aware int

datatype error = ValueError string | TypeError string | IndexError string

fun aware :: "datetime \<Rightarrow> bool" where
  "aware (Naive t) = False"
| "aware (Aware t) = True"

fun datetime_lt :: "datetime \<Rightarrow> datetime \<Rightarrow> error + bool" where
  "datetime_lt (Naive s) (Naive t) = Inr (s < t)"
| "datetime_lt (Aware s) (Aware t) = Inr (s < t)"
| "datetime_lt s t = Inl (TypeError ''can't compare offset-naive and offset-aware datetimes'')"

text \<open>
  A message on the wire is a dict from field names to values. The values the code looks at
  are strings, dicts and \<open>None\<close>; \<open>VTime t\<close> stands for the ISO string
  \<open>t.isoformat()\<close> of the \<open>datetime\<close> \<open>t\<close>.
\<close>

datatype py_value = VNone | VStr string | VTime datetime | VDict "(string \<times> string) list"










section \<open>Message broker (message\_broker.py)\<close>

datatype MessageType = TASK | RESULT | EVENT | HEARTBEAT | ERROR | CONTROL

fun message_type_value :: "MessageType \<Rightarrow> string" where
  "message_type_value TASK = ''task''"
| "message_type_value RESULT = ''result''"
| "message_type_value EVENT = ''event''"
| "message_type_value HEARTBEAT = ''heartbeat''"
| "message_type_value ERROR = ''error''"
| "message_type_value CONTROL = ''control''"

datatype MessagePriority = CRITICAL | HIGH | NORMAL | LOW

fun priority_value :: "MessagePriority \<Rightarrow> int" where
  "priority_value CRITICAL = 0"
| "priority_value HIGH = 1"
| "priority_value NORMAL = 2"
| "priority_value LOW = 3"

fun priority_name :: "MessagePriority \<Rightarrow> string" where
  "priority_name CRITICAL = ''CRITICAL''"
| "priority_name HIGH = ''HIGH''"
| "priority_name NORMAL = ''NORMAL''"
| "priority_name LOW = ''LOW''"

text \<open>
  The dataclass \<open>Message\<close>. Nothing checks the annotation \<open>Dict[str, Any]\<close> of the
  payload: it is any value.
\<close>

record Message =
  sender :: string
  recipient :: string
  message_type :: MessageType
  payload :: py_value
  priority :: MessagePriority
  timestamp :: datetime
  message_id :: string
  correlation_id :: "string option"

text \<open>
  \<open>Message.__lt__\<close>: the priorities when they differ, else the time stamps, whose
  comparison may raise.
\<close>

definition message_lt :: "Message \<Rightarrow> Message \<Rightarrow> error + bool" where
  "message_lt self other =
     (if priority_value (priority self) \<noteq> priority_value (priority other)
      then Inr (priority_value (priority self) < priority_value (priority other))
      else datetime_lt (timestamp self) (timestamp other))"

definition to_dict :: "Message \<Rightarrow> (string \<times> py_value) list" where
  "to_dict m =
     [(''sender'', VStr (sender m)),
      (''recipient'', VStr (recipient m)),
      (''type'', VStr (message_type_value (message_type m))),
      (''payload'', payload m),
      (''priority'', VStr (priority_name (priority m))),
      (''timestamp'', VTime (timestamp m)),
      (''message_id'', VStr (message_id m)),
      (''correlation_id'', (case correlation_id m of None \<Rightarrow> VNone | Some c \<Rightarrow> VStr c))]"

subsection \<open>The heap under \<open>queue.PriorityQueue\<close>\<close>

text \<open>
  \<open>PriorityQueue\<close> keeps its items in a list ordered by \<open>heappush\<close> and \<open>heappop\<close>
  of \<open>heapq\<close>, which CPython takes from its module \<open>_heapq\<close>. They compare items with
  \<open><\<close> only, here \<open>Message.__lt__\<close>, and work on the list in place, exchanging two
  items at a time: when a comparison raises, the exception leaves the function and the
  list stays as the exchanges made so far have left it. Every function returns the
  exception raised, if any, together with the list. The loops are followed index by index:
  which of two messages that compare equal leaves the queue first is decided by them.
\<close>

function siftdown :: "Message list \<Rightarrow> nat \<Rightarrow> nat \<Rightarrow> error option \<times> Message list" where
  "siftdown heap startpos pos =
     (if pos > startpos then
        (let parentpos = (pos - 1) div 2
         in case message_lt (heap ! pos) (heap ! parentpos) of
              Inl e \<Rightarrow> (Some e, heap)
            | Inr cmp \<Rightarrow>
                if cmp
                then siftdown (heap[parentpos := heap ! pos, pos := heap ! parentpos])
                       startpos parentpos
                else (None, heap))
      else (None, heap))"
  by pat_completeness auto
termination
  by (relation "measure (\<lambda>(heap, startpos, pos). pos)") auto

text \<open>
  \<open>siftup\<close>: the smaller child moves up until the item is at a leaf, then \<open>siftdown\<close>
  brings the item to its place.
\<close>

function siftup_loop :: "Message list \<Rightarrow> nat \<Rightarrow> error option \<times> Message list \<times> nat" where
  "siftup_loop heap pos =
     (if pos < length heap div 2 then
        (let childpos = 2 * pos + 1
         in if childpos + 1 < length heap then
              (case message_lt (heap ! childpos) (heap ! (childpos + 1)) of
                 Inl e \<Rightarrow> (Some e, heap, pos)
               | Inr cmp \<Rightarrow>
                   (let childpos = (if cmp then childpos else childpos + 1)
                    in siftup_loop (heap[childpos := heap ! pos, pos := heap ! childpos]) childpos))
            else siftup_loop (heap[childpos := heap ! pos, pos := heap ! childpos]) childpos)
      else (None, heap, pos))"
  by pat_completeness auto
termination
  by (relation "measure (\<lambda>(heap, pos). length heap - pos)") (auto simp add: Let_def)

definition siftup :: "Message list \<Rightarrow> nat \<Rightarrow> error option \<times> Message list" where
  "siftup heap pos =
     (case siftup_loop heap pos of
        (Some e, heap1, pos1) \<Rightarrow> (Some e, heap1)
      | (None, heap1, pos1) \<Rightarrow> siftdown heap1 pos pos1)"

definition heappush :: "Message list \<Rightarrow> Message \<Rightarrow> error option \<times> Message list" where
  "heappush heap item = siftdown (heap @ [item]) 0 (length heap)"

text \<open>
  \<open>heappop\<close> raises \<open>IndexError\<close> on the empty list. It removes the last item, puts it
  in the place of the first one and calls \<open>siftup\<close>: when that raises, the first item has
  already left the list.
\<close>

definition heappop :: "Message list \<Rightarrow> (error + Message) \<times> Message list" where
  "heappop heap =
     (if heap = [] then (Inl (IndexError ''index out of range''), heap)
      else (let lastelt = last heap;
                heap1 = butlast heap
            in if heap1 = [] then (Inr lastelt, heap1)
               else (let returnitem = heap1 ! 0
                     in case siftup (heap1[0 := lastelt]) 0 of
                          (Some e, heap2) \<Rightarrow> (Inl e, heap2)
                        | (None, heap2) \<Rightarrow> (Inr returnitem, heap2))))"

subsection \<open>Mailboxes, dead letters and the broker\<close>

record MessageQueue =
  queue :: "Message list"
  max_size :: int
  message_count :: int

definition MessageQueue_init :: "int \<Rightarrow> MessageQueue" where
  "MessageQueue_init maxs = \<lparr>queue = [], max_size = maxs, message_count = 0\<rparr>"

text \<open>
  \<open>put\<close>. The queue is full when \<open>0 < maxsize \<le> qsize\<close> (a \<open>maxsize\<close> of zero or less
  means no bound). On a full queue \<open>queue.put\<close> raises \<open>Full\<close> when \<open>block\<close> is false
  and waits for a free slot otherwise: no other thread takes part here, so that the call
  never returns, which is the result \<open>None\<close>. Otherwise the item goes to \<open>heappush\<close>.
  \<open>except Exception\<close> turns \<open>Full\<close> and any exception of a comparison into the result
  \<open>False\<close>; after the latter the item is in the list all the same, and \<open>message_count\<close>
  has not been incremented.
\<close>

definition put :: "MessageQueue \<Rightarrow> Message \<Rightarrow> bool \<Rightarrow> (bool \<times> MessageQueue) option" where
  "put q message block =
     (if 0 < max_size q \<and> max_size q \<le> int (length (queue q))
      then (if block then None else Some (False, q))
      else (case heappush (queue q) message of
              (Some e, heap1) \<Rightarrow> Some (False, q\<lparr>queue := heap1\<rparr>)
            | (None, heap1) \<Rightarrow>
                Some (True, q\<lparr>queue := heap1, message_count := message_count q + 1\<rparr>)))"

text \<open>
  \<open>get\<close>. With \<open>block\<close> false an empty queue raises \<open>Empty\<close>; with \<open>block\<close> true
  and no timeout the call waits on an empty queue (it never returns: \<open>None\<close>); a
  negative timeout raises \<open>ValueError\<close> before the queue is looked at; with a timeout
  that is not negative an empty queue raises \<open>Empty\<close> once the time has passed.
  Otherwise the item comes from \<open>heappop\<close>. \<open>except Exception\<close> turns every exception
  into the result \<open>None\<close> of \<open>get\<close>.
\<close>

definition get ::
  "MessageQueue \<Rightarrow> bool \<Rightarrow> real option \<Rightarrow> (Message option \<times> MessageQueue) option" where
  "get q block timeout =
     (let taken = (case heappop (queue q) of
                     (Inl e, heap1) \<Rightarrow> Some (None, q\<lparr>queue := heap1\<rparr>)
                   | (Inr message, heap1) \<Rightarrow>
                       Some (Some message,
                             q\<lparr>queue := heap1, message_count := message_count q - 1\<rparr>))
      in if \<not> block then (if queue q = [] then Some (None, q) else taken)
         else (case timeout of
                 None \<Rightarrow> (if queue q = [] then None else taken)
               | Some t \<Rightarrow>
                   if t < 0 then Some (None, q)
                   else if queue q = [] then Some (None, q)
                   else taken))"

record dlq_entry =
  dlq_message :: "(string \<times> py_value) list"
  failure_reason :: string
  dlq_timestamp :: int

record DeadLetterQueue =
  messages :: "dlq_entry list"
  max_messages :: int

definition DeadLetterQueue_init :: "int \<Rightarrow> DeadLetterQueue" where
  "DeadLetterQueue_init maxm = \<lparr>messages = [], max_messages = maxm\<rparr>"

text \<open>
  \<open>add_message\<close>; \<open>pop(0)\<close> on an empty list raises \<open>IndexError\<close>: \<open>None\<close>. The clock
  reading \<open>datetime.now()\<close> is an argument.
\<close>

definition add_message :: "DeadLetterQueue \<Rightarrow> Message \<Rightarrow> string \<Rightarrow> int \<Rightarrow> DeadLetterQueue option" where
  "add_message dlq message reason now =
     (let dlq_entry = \<lparr>dlq_message = to_dict message, failure_reason = reason,
                        dlq_timestamp = now\<rparr>
      in if int (length (messages dlq)) \<ge> max_messages dlq
         then (if messages dlq = [] then None
               else Some (dlq\<lparr>messages := tl (messages dlq) @ [dlq_entry]\<rparr>))
         else Some (dlq\<lparr>messages := messages dlq @ [dlq_entry]\<rparr>))"

record MessageBroker =
  message_queues :: "string \<rightharpoonup> MessageQueue"
  dead_letter_queue :: DeadLetterQueue
  max_queue_size :: int
  message_history :: "(string \<times> py_value) list list"
  max_history :: int

definition MessageBroker_init :: "int \<Rightarrow> MessageBroker" where
  "MessageBroker_init max_queue =
     \<lparr>message_queues = Map.empty, dead_letter_queue = DeadLetterQueue_init 500,
      max_queue_size = max_queue, message_history = [], max_history = 1000\<rparr>"

definition get_or_create_queue :: "MessageBroker \<Rightarrow> string \<Rightarrow> MessageQueue \<times> MessageBroker" where
  "get_or_create_queue broker agent_id =
     (case message_queues broker agent_id of
        Some q \<Rightarrow> (q, broker)
      | None \<Rightarrow> (MessageQueue_init (max_queue_size broker),
                 broker\<lparr>message_queues := (message_queues broker)
                    (agent_id \<mapsto> MessageQueue_init (max_queue_size broker))\<rparr>))"

text \<open>\<open>_record_message\<close>; again \<open>pop(0)\<close> raises on an empty history.\<close>

definition record_message :: "MessageBroker \<Rightarrow> Message \<Rightarrow> MessageBroker option" where
  "record_message broker message =
     (if int (length (message_history broker)) \<ge> max_history broker
      then (if message_history broker = [] then None
            else Some (broker\<lparr>message_history := tl (message_history broker) @ [to_dict message]\<rparr>))
      else Some (broker\<lparr>message_history := message_history broker @ [to_dict message]\<rparr>))"

text \<open>
  \<open>send_message\<close>, which calls \<open>put\<close> with \<open>block=False\<close>. The queue object is updated
  in place, so the mailbox is written back before the branches. An exception inside the
  \<open>try\<close> leads to the \<open>except\<close> branch, which adds a dead letter with the text of the
  exception and returns \<open>False\<close>; an exception raised there leaves \<open>send_message\<close>:
  \<open>None\<close>.
\<close>

definition send_message :: "MessageBroker \<Rightarrow> Message \<Rightarrow> int \<Rightarrow> (bool \<times> MessageBroker) option" where
  "send_message broker message now =
     (let (q, broker1) = get_or_create_queue broker (recipient message)
      in case put q message False of
           None \<Rightarrow> None
         | Some (success, q1) \<Rightarrow>
            (let broker2 = broker1\<lparr>message_queues :=
                                      (message_queues broker1)(recipient message \<mapsto> q1)\<rparr>
             in if success then
                  (case record_message broker2 message of
                     Some broker3 \<Rightarrow> Some (True, broker3)
                   | None \<Rightarrow>
                      (case add_message (dead_letter_queue broker2) message
                              ''pop from empty list'' now of
                         Some dlq \<Rightarrow> Some (False, broker2\<lparr>dead_letter_queue := dlq\<rparr>)
                       | None \<Rightarrow> None))
                else
                  (case add_message (dead_letter_queue broker2) message ''Queue full'' now of
                     Some dlq \<Rightarrow> Some (False, broker2\<lparr>dead_letter_queue := dlq\<rparr>)
                   | None \<Rightarrow> None)))"

text \<open>
  \<open>receive_message\<close>, which calls \<open>get\<close> with \<open>block=True\<close> and its timeout, a float
  (one second by default).
\<close>

definition receive_message ::
  "MessageBroker \<Rightarrow> string \<Rightarrow> real \<Rightarrow> (Message option \<times> MessageBroker) option" where
  "receive_message broker agent_id timeout =
     (let (q, broker1) = get_or_create_queue broker agent_id
      in case get q True (Some timeout) of
           None \<Rightarrow> None
         | Some (result, q1) \<Rightarrow>
             Some (result, broker1\<lparr>message_queues := (message_queues broker1)(agent_id \<mapsto> q1)\<rparr>))"

text \<open>
  A run of sends with the list of their results, and the results of a run of receives from
  one mailbox with the default timeout.
\<close>

fun send_all :: "MessageBroker \<Rightarrow> Message list \<Rightarrow> int \<Rightarrow> (bool list \<times> MessageBroker) option" where
  "send_all broker [] now = Some ([], broker)"
| "send_all broker (m # ms) now =
     (case send_message broker m now of
        None \<Rightarrow> None
      | Some (success, broker1) \<Rightarrow>
          (case send_all broker1 ms now of
             None \<Rightarrow> None
           | Some (results, broker2) \<Rightarrow> Some (success # results, broker2)))"

fun receive_all :: "MessageBroker \<Rightarrow> string \<Rightarrow> nat \<Rightarrow> Message option list" where
  "receive_all broker agent_id 0 = []"
| "receive_all broker agent_id (Suc n) =
     (case receive_message broker agent_id 1 of
        None \<Rightarrow> []
      | Some (result, broker1) \<Rightarrow> result # receive_all broker1 agent_id n)"

subsection \<open>Predicates used in the statements about the broker\<close>




definition spec_receive_order :: "Message list \<Rightarrow> Message list" where
  "spec_receive_order sent = sort_key (\<lambda>m. priority_value (priority m)) sent"

definition msg :: "MessagePriority \<Rightarrow> datetime \<Rightarrow> string \<Rightarrow> Message" where
  "msg p t body =
     \<lparr>sender = ''agent1'', recipient = ''agent2'', message_type = TASK,
      payload = VDict [(''body'', body)], priority = p, timestamp = t, message_id = [],
      correlation_id = None\<rparr>"

declare siftdown.simps [simp del] siftup_loop.simps [simp del]

section \<open>Workflow engine (workflow\_manager.py)\<close>

datatype TaskStatus = PENDING | READY | RUNNING | COMPLETED | FAILED | SKIPPED | BLOCKED

datatype WorkflowStrategy = SEQUENTIAL | PARALLEL | ADAPTIVE | BATCH

text \<open>
  A task's \<open>dependencies\<close> is a Python set: the list gives its elements in the order in
  which the set is iterated, and adding an element that is present changes nothing. The
  callable, the result and the time stamps of a task are left out.
\<close>

record Task =
  task_id :: string
  task_name :: string
  status :: TaskStatus
  task_priority :: int
  dependencies :: "string list"
  retry_count :: int
  max_retries :: int

record Workflow =
  workflow_id :: string
  workflow_name :: string
  tasks :: "(string \<times> Task) list"
  strategy :: WorkflowStrategy

definition add_task :: "Workflow \<Rightarrow> Task \<Rightarrow> Workflow" where
  "add_task workflow task = workflow\<lparr>tasks := AList.update (task_id task) task (tasks workflow)\<rparr>"

record DependencyResolver =
  dependency_graph :: "string \<rightharpoonup> string list"
  reverse_graph :: "string \<rightharpoonup> string list"

definition DependencyResolver_init :: DependencyResolver where
  "DependencyResolver_init = \<lparr>dependency_graph = Map.empty, reverse_graph = Map.empty\<rparr>"

text \<open>\<open>graph.get(node, set())\<close>\<close>

definition neighbors :: "(string \<rightharpoonup> string list) \<Rightarrow> string \<Rightarrow> string list" where
  "neighbors graph node = (case graph node of None \<Rightarrow> [] | Some ds \<Rightarrow> ds)"

text \<open>\<open>graph[key].add(item)\<close> on a \<open>defaultdict(set)\<close>\<close>

definition graph_add :: "(string \<rightharpoonup> string list) \<Rightarrow> string \<Rightarrow> string \<Rightarrow> (string \<rightharpoonup> string list)" where
  "graph_add graph key item =
     graph(key \<mapsto> (if item \<in> set (neighbors graph key) then neighbors graph key
                     else neighbors graph key @ [item]))"

text \<open>The two nested loops of \<open>build_graph\<close> that fill the graphs.\<close>

fun add_dependencies :: "DependencyResolver \<Rightarrow> string \<Rightarrow> string list \<Rightarrow> DependencyResolver" where
  "add_dependencies r tid [] = r"
| "add_dependencies r tid (dep_id # deps) =
     add_dependencies
       (r\<lparr>dependency_graph := graph_add (dependency_graph r) tid dep_id,
          reverse_graph := graph_add (reverse_graph r) dep_id tid\<rparr>) tid deps"

fun add_tasks :: "DependencyResolver \<Rightarrow> (string \<times> Task) list \<Rightarrow> DependencyResolver" where
  "add_tasks r [] = r"
| "add_tasks r ((tid, task) # rest) = add_tasks (add_dependencies r tid (dependencies task)) rest"

text \<open>
  The depth-first search of \<open>_has_cycle\<close>. The closure \<open>dfs\<close> updates the two sets
  \<open>visited\<close> and \<open>rec_stack\<close> of the enclosing call: they are threaded through. The
  first argument is the number of nested calls the interpreter still allows; when it is
  used up Python raises \<open>RecursionError\<close>, which nothing catches: \<open>None\<close>.
  \<open>dfs_neighbors\<close> is the \<open>for\<close> loop inside \<open>dfs\<close>.
\<close>

record dfs_state =
  visited :: "string set"
  rec_stack :: "string set"

fun dfs :: "nat \<Rightarrow> (string \<rightharpoonup> string list) \<Rightarrow> string \<Rightarrow> dfs_state \<Rightarrow> (bool \<times> dfs_state) option"
  and dfs_neighbors ::
    "nat \<Rightarrow> (string \<rightharpoonup> string list) \<Rightarrow> string list \<Rightarrow> dfs_state \<Rightarrow> (bool \<times> dfs_state) option"
where
  "dfs 0 graph node st = None"
| "dfs (Suc depth) graph node st =
     (case dfs_neighbors depth graph (neighbors graph node)
             (st\<lparr>visited := insert node (visited st), rec_stack := insert node (rec_stack st)\<rparr>) of
        None \<Rightarrow> None
      | Some (True, st1) \<Rightarrow> Some (True, st1)
      | Some (False, st1) \<Rightarrow> Some (False, st1\<lparr>rec_stack := rec_stack st1 - {node}\<rparr>))"
| "dfs_neighbors depth graph [] st = Some (False, st)"
| "dfs_neighbors depth graph (neighbor # rest) st =
     (if neighbor \<notin> visited st then
        (case dfs depth graph neighbor st of
           None \<Rightarrow> None
         | Some (True, st1) \<Rightarrow> Some (True, st1)
         | Some (False, st1) \<Rightarrow> dfs_neighbors depth graph rest st1)
      else if neighbor \<in> rec_stack st then Some (True, st)
      else dfs_neighbors depth graph rest st)"

text \<open>The loop of \<open>_has_cycle\<close> over the task ids of the workflow.\<close>

fun has_cycle_loop ::
  "nat \<Rightarrow> (string \<rightharpoonup> string list) \<Rightarrow> string list \<Rightarrow> dfs_state \<Rightarrow> bool option" where
  "has_cycle_loop depth graph [] st = Some False"
| "has_cycle_loop depth graph (tid # rest) st =
     (if tid \<notin> visited st then
        (case dfs depth graph tid st of
           None \<Rightarrow> None
         | Some (True, st1) \<Rightarrow> Some True
         | Some (False, st1) \<Rightarrow> has_cycle_loop depth graph rest st1)
      else has_cycle_loop depth graph rest st)"

definition has_cycle :: "nat \<Rightarrow> DependencyResolver \<Rightarrow> Workflow \<Rightarrow> bool option" where
  "has_cycle depth r workflow =
     has_cycle_loop depth (dependency_graph r) (map fst (tasks workflow))
       \<lparr>visited = {}, rec_stack = {}\<rparr>"

definition build_graph ::
  "nat \<Rightarrow> DependencyResolver \<Rightarrow> Workflow \<Rightarrow> (bool \<times> DependencyResolver) option" where
  "build_graph depth r workflow =
     (let r1 = add_tasks (r\<lparr>dependency_graph := Map.empty, reverse_graph := Map.empty\<rparr>)
                 (tasks workflow)
      in case has_cycle depth r1 workflow of
           None \<Rightarrow> None
         | Some True \<Rightarrow> Some (False, r1)
         | Some False \<Rightarrow> Some (True, r1))"

text \<open>
  \<open>get_critical_path\<close>. The memo table \<open>path_lengths\<close> is a dict: an association list
  in insertion order. \<open>calculate_length\<close> is the closure, with the same bound on nested
  calls as above; \<open>calculate_deps\<close> is its \<open>for\<close> loop with the running maximum.
\<close>

fun calculate_length ::
    "nat \<Rightarrow> (string \<rightharpoonup> string list) \<Rightarrow> string \<Rightarrow> (string \<times> int) list
      \<Rightarrow> (int \<times> (string \<times> int) list) option"
  and calculate_deps ::
    "nat \<Rightarrow> (string \<rightharpoonup> string list) \<Rightarrow> string list \<Rightarrow> int \<Rightarrow> (string \<times> int) list
      \<Rightarrow> (int \<times> (string \<times> int) list) option"
where
  "calculate_length 0 graph tid path_lengths = None"
| "calculate_length (Suc depth) graph tid path_lengths =
     (case map_of path_lengths tid of
        Some len \<Rightarrow> Some (len, path_lengths)
      | None \<Rightarrow>
         (case calculate_deps depth graph (neighbors graph tid) 0 path_lengths of
            None \<Rightarrow> None
          | Some (max_dep_length, path_lengths1) \<Rightarrow>
              Some (max_dep_length + 1,
                    AList.update tid (max_dep_length + 1) path_lengths1)))"
| "calculate_deps depth graph [] max_dep_length path_lengths = Some (max_dep_length, path_lengths)"
| "calculate_deps depth graph (dep_id # rest) max_dep_length path_lengths =
     (case calculate_length depth graph dep_id path_lengths of
        None \<Rightarrow> None
      | Some (len, path_lengths1) \<Rightarrow>
          calculate_deps depth graph rest (max max_dep_length len) path_lengths1)"

text \<open>The loop that calls \<open>calculate_length\<close> for every task of the workflow.\<close>

fun calculate_all ::
  "nat \<Rightarrow> (string \<rightharpoonup> string list) \<Rightarrow> string list \<Rightarrow> (string \<times> int) list
    \<Rightarrow> (string \<times> int) list option" where
  "calculate_all depth graph [] path_lengths = Some path_lengths"
| "calculate_all depth graph (tid # rest) path_lengths =
     (case calculate_length depth graph tid path_lengths of
        None \<Rightarrow> None
      | Some (len, path_lengths1) \<Rightarrow> calculate_all depth graph rest path_lengths1)"

text \<open>
  The last loop: it walks the entries sorted by decreasing length and takes an entry
  whenever its length is the one looked for. \<open>sorted(..., reverse=True)\<close> is stable (entries
  of equal length keep the order of the dict), as is \<open>sort_key\<close> on the negated length.
\<close>

fun collect_path :: "(string \<times> int) list \<Rightarrow> int \<Rightarrow> string list" where
  "collect_path [] current_length = []"
| "collect_path ((tid, len) # rest) current_length =
     (if len = current_length then tid # collect_path rest (current_length - 1)
      else collect_path rest current_length)"

definition critical_path_of :: "(string \<times> int) list \<Rightarrow> string list" where
  "critical_path_of path_lengths =
     collect_path (sort_key (\<lambda>item. - snd item) path_lengths)
       (if path_lengths \<noteq> [] then Max (set (map snd path_lengths)) else 0)"

definition path_lengths_of :: "nat \<Rightarrow> DependencyResolver \<Rightarrow> Workflow \<Rightarrow> (string \<times> int) list option" where
  "path_lengths_of depth r workflow =
     calculate_all depth (dependency_graph r) (map fst (tasks workflow)) []"

definition get_critical_path :: "nat \<Rightarrow> DependencyResolver \<Rightarrow> Workflow \<Rightarrow> string list option" where
  "get_critical_path depth r workflow =
     map_option critical_path_of (path_lengths_of depth r workflow)"

text \<open>The scheduler: pending tasks become ready in the order of their priority numbers.\<close>

record TaskScheduler =
  ready_queue :: "string list"
  task_status :: "(string \<times> TaskStatus) list"
  execution_order :: "string list"

definition TaskScheduler_init :: TaskScheduler where
  "TaskScheduler_init = \<lparr>ready_queue = [], task_status = [], execution_order = []\<rparr>"

fun schedule_loop ::
  "TaskScheduler \<Rightarrow> Workflow \<Rightarrow> (string \<times> Task) list \<Rightarrow> TaskScheduler \<times> Workflow" where
  "schedule_loop s workflow [] = (s, workflow)"
| "schedule_loop s workflow ((key, task) # rest) =
     (if status task = PENDING then
        schedule_loop
          (s\<lparr>ready_queue := ready_queue s @ [task_id task],
             execution_order := execution_order s @ [task_id task]\<rparr>)
          (workflow\<lparr>tasks := AList.update key (task\<lparr>status := READY\<rparr>) (tasks workflow)\<rparr>)
          rest
      else schedule_loop s workflow rest)"

text \<open>
  \<open>schedule\<close>. \<open>sorted\<close> is stable; the task objects it returns are those stored in the
  workflow, so setting the status of one changes the entry under its key.
\<close>

definition schedule :: "TaskScheduler \<Rightarrow> Workflow \<Rightarrow> string list \<times> TaskScheduler \<times> Workflow" where
  "schedule s workflow =
     (let s1 = s\<lparr>execution_order := [],
                 task_status := map (\<lambda>(k, t). (k, status t)) (tasks workflow)\<rparr>;
          sorted_tasks = sort_key (\<lambda>(k, t). task_priority t) (tasks workflow);
          (s2, workflow1) = schedule_loop s1 workflow sorted_tasks
      in (execution_order s2, s2, workflow1))"

record WorkflowManager =
  workflows :: "(string \<times> Workflow) list"
  scheduler :: TaskScheduler
  resolver :: DependencyResolver

definition WorkflowManager_init :: WorkflowManager where
  "WorkflowManager_init =
     \<lparr>workflows = [], scheduler = TaskScheduler_init, resolver = DependencyResolver_init\<rparr>"

text \<open>The last loop of \<open>validate_workflow\<close>: every dependency id is a task id of the workflow.\<close>

definition dependencies_exist :: "Workflow \<Rightarrow> bool" where
  "dependencies_exist workflow =
     list_all (\<lambda>(tid, task). list_all (\<lambda>dep_id. dep_id \<in> fst ` set (tasks workflow))
                                   (dependencies task))
       (tasks workflow)"

definition validate_workflow ::
  "nat \<Rightarrow> WorkflowManager \<Rightarrow> Workflow \<Rightarrow> (bool \<times> WorkflowManager) option" where
  "validate_workflow depth m workflow =
     (if tasks workflow = [] then Some (False, m)
      else case build_graph depth (resolver m) workflow of
             None \<Rightarrow> None
           | Some (False, r1) \<Rightarrow> Some (False, m\<lparr>resolver := r1\<rparr>)
           | Some (True, r1) \<Rightarrow> Some (dependencies_exist workflow, m\<lparr>resolver := r1\<rparr>))"

definition get_execution_plan ::
  "nat \<Rightarrow> WorkflowManager \<Rightarrow> Workflow \<Rightarrow> (string list option \<times> WorkflowManager \<times> Workflow) option" where
  "get_execution_plan depth m workflow =
     (case validate_workflow depth m workflow of
        None \<Rightarrow> None
      | Some (False, m1) \<Rightarrow> Some (None, m1, workflow)
      | Some (True, m1) \<Rightarrow>
          (let (plan, s1, workflow1) = schedule (scheduler m1) workflow
           in Some (Some plan, m1\<lparr>scheduler := s1\<rparr>, workflow1)))"

text \<open>The dependency relation of a workflow: a task id and one of the ids it depends on.\<close>

definition depends_on :: "Workflow \<Rightarrow> (string \<times> string) set" where
  "depends_on workflow =
     {(tid, dep_id). \<exists>task. (tid, task) \<in> set (tasks workflow) \<and> dep_id \<in> set (dependencies task)}"

text \<open>The workflows of the examples: the cycle A, B, C and the diamond A, B, C, D.\<close>

definition task :: "string \<Rightarrow> string list \<Rightarrow> Task" where
  "task tid deps = \<lparr>task_id = tid, task_name = tid, status = PENDING, task_priority = 5,
     dependencies = deps, retry_count = 0, max_retries = 3\<rparr>"

definition workflow_of :: "Task list \<Rightarrow> Workflow" where
  "workflow_of ts = foldl add_task
     \<lparr>workflow_id = ''w'', workflow_name = ''w'', tasks = [], strategy = SEQUENTIAL\<rparr> ts"

definition cycle_workflow :: Workflow where
  "cycle_workflow = workflow_of [task ''A'' [''C''], task ''B'' [''A''], task ''C'' [''B'']]"

definition diamond_workflow :: Workflow where
  "diamond_workflow =
     workflow_of [task ''A'' [], task ''B'' [''A''], task ''C'' [''A''], task ''D'' [''B'', ''C'']]"

section \<open>State machine (advanced\_state\_manager.py)\<close>

datatype StateType = INITIAL | INTERMEDIATE | TERMINAL | ERROR_STATE | WAIT

fun state_type_value :: "StateType \<Rightarrow> string" where
  "state_type_value INITIAL = ''initial''"
| "state_type_value INTERMEDIATE = ''intermediate''"
| "state_type_value TERMINAL = ''terminal''"
| "state_type_value ERROR_STATE = ''error''"
| "state_type_value WAIT = ''wait''"

datatype TransitionType = TT_NORMAL | TT_CONDITIONAL | TT_FALLBACK | TT_TIMEOUT

text \<open>
  The context argument is \<open>Optional[Any]\<close>; the code only passes it to the guards and
  tests its truthiness. It is modelled as an optional dict: \<open>None\<close> is Python's
  \<open>None\<close>, and a dict is falsy exactly when it is empty.
\<close>

type_synonym py_context = "(string \<times> string) list option"

fun truthy :: "py_context \<Rightarrow> bool" where
  "truthy None = False"
| "truthy (Some kvs) = (kvs \<noteq> [])"

text \<open>
  Guards are predicates on the context. Handlers, actions and callbacks are callables run
  for their effect only: each is identified by a name, and running one appends an event to
  the trace \<open>effects\<close> of the machine. The calls of \<open>self.logger\<close> are events of the
  same trace, with the level of the call and the text handed to the logger.
\<close>

datatype log_level = LOG_DEBUG | LOG_WARNING | LOG_ERROR

datatype effect =
    Ran string
  | RanCallback string string string py_context
  | Logged log_level string

record StateTransition =
  transition_id :: string
  from_state :: string
  to_state :: string
  transition_type :: TransitionType
  condition :: "(py_context \<Rightarrow> bool) option"
  action :: "string option"
  guard_clauses :: "(py_context \<Rightarrow> bool) list"
  created_at :: int

record AuditEntry =
  ae_entry_id :: string
  ae_timestamp :: int
  ae_from_state :: string
  ae_to_state :: string
  ae_trigger :: string
  ae_user :: string
  ae_success :: bool
  ae_error_message :: "string option"
  ae_metadata :: "(string \<times> string) list"

record StateMachine =
  current_state :: string
  states :: "string \<rightharpoonup> StateType"
  transitions :: "string \<rightharpoonup> StateTransition list"
  callbacks :: "string \<rightharpoonup> string list"
  state_entry_handlers :: "string \<rightharpoonup> string"
  state_exit_handlers :: "string \<rightharpoonup> string"
  audit_trail :: "AuditEntry list"
  effects :: "effect list"

definition StateMachine_init :: "string \<Rightarrow> StateMachine" where
  "StateMachine_init initial_state =
     \<lparr>current_state = initial_state, states = Map.empty, transitions = Map.empty,
      callbacks = Map.empty, state_entry_handlers = Map.empty,
      state_exit_handlers = Map.empty, audit_trail = [], effects = []\<rparr>"

definition define_state :: "StateMachine \<Rightarrow> string \<Rightarrow> StateType \<Rightarrow> StateMachine" where
  "define_state sm state state_type =
     sm\<lparr>states := (states sm)(state \<mapsto> state_type),
        effects := effects sm @
          [Logged LOG_DEBUG
             (''State defined: '' @ state @ '' ('' @ state_type_value state_type @ '')'')]\<rparr>"

text \<open>\<open>self.transitions.get(state, [])\<close>: the edges leaving a state, none when the key is absent.\<close>

definition outgoing :: "StateMachine \<Rightarrow> string \<Rightarrow> StateTransition list" where
  "outgoing sm state = (case transitions sm state of None \<Rightarrow> [] | Some ts \<Rightarrow> ts)"

definition add_transition :: "StateMachine \<Rightarrow> StateTransition \<Rightarrow> StateMachine" where
  "add_transition sm tr =
     (if from_state tr \<notin> dom (states sm) \<or> to_state tr \<notin> dom (states sm)
      then sm\<lparr>effects := effects sm @ [Logged LOG_ERROR ''Invalid transition states'']\<rparr>
      else sm\<lparr>transitions := (transitions sm)(from_state tr \<mapsto> outgoing sm (from_state tr) @ [tr])\<rparr>)"

definition register_entry_handler :: "StateMachine \<Rightarrow> string \<Rightarrow> string \<Rightarrow> StateMachine" where
  "register_entry_handler sm state handler =
     sm\<lparr>state_entry_handlers := (state_entry_handlers sm)(state \<mapsto> handler)\<rparr>"

definition register_exit_handler :: "StateMachine \<Rightarrow> string \<Rightarrow> string \<Rightarrow> StateMachine" where
  "register_exit_handler sm state handler =
     sm\<lparr>state_exit_handlers := (state_exit_handlers sm)(state \<mapsto> handler)\<rparr>"

text \<open>
  The test of one edge in the loop of \<open>transition\<close>:
  \<open>trans.condition is None or (context and trans.condition(context))\<close>, then
  \<open>all(guard(context) for guard in trans.guard_clauses)\<close>.
\<close>

definition edge_selected :: "StateTransition \<Rightarrow> py_context \<Rightarrow> bool" where
  "edge_selected tr ctx =
     ((case condition tr of None \<Rightarrow> True | Some c \<Rightarrow> truthy ctx \<and> c ctx)
      \<and> list_all (\<lambda>guard. guard ctx) (guard_clauses tr))"

text \<open>The \<open>for ... break\<close> loop: the first edge, in declaration order, that passes the test.\<close>

fun find_transition :: "StateTransition list \<Rightarrow> py_context \<Rightarrow> StateTransition option" where
  "find_transition [] ctx = None"
| "find_transition (tr # trs) ctx =
     (if edge_selected tr ctx then Some tr else find_transition trs ctx)"

text \<open>
  \<open>transition\<close>. The fresh \<open>uuid4\<close> of the audit entry and the clock reading are
  arguments. Reading \<open>self.callbacks[key]\<close> on a \<open>defaultdict\<close> creates the key with
  an empty list when it is missing. The last statement of either branch is a call of the
  logger: a warning when no edge was found, and on success a debug line that carries the
  trigger.
\<close>

definition transition ::
  "StateMachine \<Rightarrow> string \<Rightarrow> py_context \<Rightarrow> string \<Rightarrow> string \<Rightarrow> int \<Rightarrow> bool \<times> StateMachine" where
  "transition sm trigger ctx user uid now =
     (case find_transition (outgoing sm (current_state sm)) ctx of
        None \<Rightarrow>
          (False, sm\<lparr>audit_trail := audit_trail sm @
             [\<lparr>ae_entry_id = uid, ae_timestamp = now, ae_from_state = current_state sm,
               ae_to_state = '''', ae_trigger = trigger, ae_user = user, ae_success = False,
               ae_error_message = Some ''No valid transition found'', ae_metadata = []\<rparr>],
             effects := effects sm @
               [Logged LOG_WARNING (''No valid transition from '' @ current_state sm)]\<rparr>)
      | Some transition_obj \<Rightarrow>
          (let next_state = to_state transition_obj;
               old_state = current_state sm;
               exit_run = (case state_exit_handlers sm old_state of
                             None \<Rightarrow> [] | Some h \<Rightarrow> [Ran h]);
               action_run = (case action transition_obj of None \<Rightarrow> [] | Some a \<Rightarrow> [Ran a]);
               entry_run = (case state_entry_handlers sm next_state of
                              None \<Rightarrow> [] | Some h \<Rightarrow> [Ran h]);
               key = old_state @ ''_to_'' @ next_state;
               cbs = (case callbacks sm key of None \<Rightarrow> [] | Some cs \<Rightarrow> cs)
           in (True, sm\<lparr>current_state := next_state,
                 audit_trail := audit_trail sm @
                   [\<lparr>ae_entry_id = uid, ae_timestamp = now, ae_from_state = old_state,
                     ae_to_state = next_state, ae_trigger = trigger, ae_user = user,
                     ae_success = True, ae_error_message = None, ae_metadata = []\<rparr>],
                 callbacks := (callbacks sm)(key \<mapsto> cbs),
                 effects := effects sm @ exit_run @ action_run @ entry_run @
                   map (\<lambda>cb. RanCallback cb old_state next_state ctx) cbs @
                   [Logged LOG_DEBUG
                      (''Transitioned '' @ old_state @ '' -> '' @ next_state @
                       '' (trigger: '' @ trigger @ '')'')]\<rparr>)))"

text \<open>
  What the claims call an edge whose guard and guard clauses accept the context: the guard,
  when there is one, holds of the context, and so does every guard clause.
\<close>

definition edge_accepts :: "StateTransition \<Rightarrow> py_context \<Rightarrow> bool" where
  "edge_accepts tr ctx =
     ((case condition tr of None \<Rightarrow> True | Some c \<Rightarrow> c ctx)
      \<and> list_all (\<lambda>guard. guard ctx) (guard_clauses tr))"

text \<open>The machine of the example: three states and one unguarded edge from INITIAL to RUNNING.\<close>

definition start_edge :: StateTransition where
  "start_edge = \<lparr>transition_id = ''t1'', from_state = ''INITIAL'', to_state = ''RUNNING'',
     transition_type = TT_NORMAL, condition = None, action = None, guard_clauses = [],
     created_at = 0\<rparr>"

definition example_machine :: StateMachine where
  "example_machine =
     add_transition
       (define_state (define_state (define_state (StateMachine_init ''INITIAL'')
          ''INITIAL'' INITIAL) ''RUNNING'' INTERMEDIATE) ''DONE'' TERMINAL)
       start_edge"

text \<open>A sequence of calls on one machine, for the invariant.\<close>

datatype sm_call =
    DefineState string StateType
  | AddTransition StateTransition
  | Transition string py_context string string int

fun run_call :: "StateMachine \<Rightarrow> sm_call \<Rightarrow> StateMachine" where
  "run_call sm (DefineState state state_type) = define_state sm state state_type"
| "run_call sm (AddTransition tr) = add_transition sm tr"
| "run_call sm (Transition trigger ctx user uid now) = snd (transition sm trigger ctx user uid now)"

definition run_calls :: "StateMachine \<Rightarrow> sm_call list \<Rightarrow> StateMachine" where
  "run_calls sm calls = foldl run_call sm calls"

text \<open>The invariant of the machine built by \<open>StateMachine(init)\<close> and then driven by calls.\<close>

definition sm_inv :: "string \<Rightarrow> StateMachine \<Rightarrow> bool" where
  "sm_inv init sm =
     ((current_state sm = init \<or> current_state sm \<in> dom (states sm)) \<and>
      (\<forall>s. \<forall>tr \<in> set (outgoing sm s).
          from_state tr = s \<and> s \<in> dom (states sm) \<and> to_state tr \<in> dom (states sm)))"

subsection \<open>Predicates used in the proofs about the workflow engine\<close>

text \<open>
  \<open>graph_edges\<close> is the relation stored in a dependency graph. During the search the
  finished nodes are those visited and no longer on the recursion stack; \<open>dfs_inv\<close> says
  that the stack is part of the visited set, that every edge from a finished node leads to
  a finished node, and that no cycle passes through a finished node.
\<close>

definition graph_edges :: "(string \<rightharpoonup> string list) \<Rightarrow> (string \<times> string) set" where
  "graph_edges graph = {(x, y). y \<in> set (neighbors graph x)}"

definition finished :: "dfs_state \<Rightarrow> string set" where
  "finished st = visited st - rec_stack st"

definition dfs_inv :: "(string \<rightharpoonup> string list) \<Rightarrow> dfs_state \<Rightarrow> bool" where
  "dfs_inv graph st =
     (rec_stack st \<subseteq> visited st
      \<and> (\<forall>x \<in> finished st. \<forall>y. (x, y) \<in> graph_edges graph \<longrightarrow> y \<in> finished st)
      \<and> (\<forall>x \<in> finished st. (x, x) \<notin> (graph_edges graph)\<^sup>+))"

text \<open>
  \<open>on_cycle\<close> is the set of nodes of a dependency graph that lie on a cycle; the recursion
  \<open>calculate_length\<close> has no guard against them.
\<close>

definition on_cycle :: "(string \<rightharpoonup> string list) \<Rightarrow> string set" where
  "on_cycle graph = {x. (x, x) \<in> (graph_edges graph)\<^sup>+}"

subsection \<open>Predicates used in the statements about the critical path\<close>








section \<open>Theorems\<close>

subsection \<open>Agent pool\<close>

text \<open>
  C5, as stated: on a fresh pool with room, registering the same agent id twice returns
  false the second time and leaves the pool size at 1. With the default capacity of 100
  the second call returns true: \<open>register_agent\<close> has no duplicate check, it only
  compares the pool size with \<open>max_agents\<close>.
\<close>

theorem register_agent_twice_counterexample:
  "\<not> (fst (register_agent (snd (register_agent (AgentPool_init ''pool'' 100) ''agent1'' [] 0))
              ''agent1'' [] 1) = False
      \<and> get_pool_size (snd (register_agent (snd (register_agent (AgentPool_init ''pool'' 100)
              ''agent1'' [] 0)) ''agent1'' [] 1)) = 1)"
  by (simp add: register_agent_def AgentPool_init_def get_pool_size_def)

text \<open>
  C5, amended: on a fresh pool with \<open>max_agents\<close> at least 1, the first registration
  returns true; the second registration of the same id returns true exactly when
  \<open>max_agents\<close> is at least 2 (it returns false only because the pool is full, when
  \<open>max_agents = 1\<close>), it replaces the agent's record when it succeeds, and the pool size
  is 1 after both calls.
\<close>

theorem register_agent_twice:
  assumes "0 < maxa"
  shows "fst (register_agent (AgentPool_init name maxa) aid caps1 t1) = True
       \<and> fst (register_agent (snd (register_agent (AgentPool_init name maxa) aid caps1 t1))
               aid caps2 t2) = (1 < maxa)
       \<and> get_pool_size (snd (register_agent (snd (register_agent (AgentPool_init name maxa)
               aid caps1 t1)) aid caps2 t2)) = 1
       \<and> (1 < maxa \<longrightarrow> map_of (agents (snd (register_agent (snd (register_agent
               (AgentPool_init name maxa) aid caps1 t1)) aid caps2 t2))) aid
             = Some \<lparr>ag_id = aid, ag_capabilities = caps2, ag_status = ''idle'',
                 ag_current_task = None, ag_tasks_completed = 0, ag_registered_time = t2\<rparr>)"
  using assms by (auto simp add: register_agent_def AgentPool_init_def get_pool_size_def)

theorem register_agent_twice_witness:
  "(0::int) < 1
   \<and> fst (register_agent (snd (register_agent (AgentPool_init ''pool'' 1) ''agent1'' [] 0))
              ''agent1'' [] 1) = False
   \<and> get_pool_size (snd (register_agent (snd (register_agent (AgentPool_init ''pool'' 1)
              ''agent1'' [] 0)) ''agent1'' [] 1)) = 1"
  using register_agent_twice [of 1 "''pool''" "''agent1''" "[]" 0 "[]" 1] by simp

subsection \<open>Error recovery\<close>

text \<open>
  C6 (every call of \<open>attempt_recovery\<close>, whatever the strategy and the result, appends
  exactly one entry to the recovery history) does not hold for \<open>MANUAL\<close>: the call
  returns false and the history is unchanged, while the three other strategies do append
  exactly one entry.
\<close>

theorem attempt_recovery_manual_not_logged:
  "attempt_recovery er agent_id MANUAL ctx now = (False, er)
   \<and> attempt_recovery er agent_id RESTART ctx now
       = (True, er\<lparr>recovery_history := recovery_history er @
            [\<lparr>re_agent_id = agent_id, re_strategy = ''restart'',
              re_success = True, re_error = None, re_timestamp = now\<rparr>]\<rparr>)
   \<and> attempt_recovery er agent_id REASSIGN ctx now
       = (True, er\<lparr>recovery_history := recovery_history er @
            [\<lparr>re_agent_id = agent_id, re_strategy = ''reassign'',
              re_success = True, re_error = None, re_timestamp = now\<rparr>]\<rparr>)
   \<and> attempt_recovery er agent_id FAILOVER ctx now
       = (True, er\<lparr>recovery_history := recovery_history er @
            [\<lparr>re_agent_id = agent_id, re_strategy = ''failover'',
              re_success = True, re_error = None, re_timestamp = now\<rparr>]\<rparr>)"
  by (simp add: attempt_recovery_def restart_agent_def reassign_tasks_def
        failover_agent_def log_recovery_attempt_def)

subsection \<open>State machine\<close>


lemma find_transition_None:
  "(find_transition trs ctx = None) = (\<forall>tr \<in> set trs. \<not> edge_selected tr ctx)"
  by (induction trs) auto

lemma find_transition_Some:
  "find_transition trs ctx = Some tr \<Longrightarrow> tr \<in> set trs \<and> edge_selected tr ctx"
  by (induction trs) (auto split: if_splits)

lemma edge_selected_accepts: "edge_selected tr ctx \<Longrightarrow> edge_accepts tr ctx"
  by (auto simp add: edge_selected_def edge_accepts_def split: option.splits)

lemma example_machine_first:
  "transition example_machine ''start'' None ''system'' ''e1'' 1 =
     (True, example_machine\<lparr>current_state := ''RUNNING'',
        audit_trail := [\<lparr>ae_entry_id = ''e1'', ae_timestamp = 1, ae_from_state = ''INITIAL'',
           ae_to_state = ''RUNNING'', ae_trigger = ''start'', ae_user = ''system'',
           ae_success = True, ae_error_message = None, ae_metadata = []\<rparr>],
        callbacks := [''INITIAL_to_RUNNING'' \<mapsto> []],
        effects := effects example_machine @
          [Logged LOG_DEBUG ''Transitioned INITIAL -> RUNNING (trigger: start)'']\<rparr>)"
  by (simp add: example_machine_def add_transition_def define_state_def StateMachine_init_def
        start_edge_def transition_def outgoing_def edge_selected_def Let_def)

text \<open>
  C7: when no edge leaving the current state has its guard (if any) and all its guard
  clauses accepting the context, \<open>transition\<close> returns false and the machine is
  unchanged except for one failure entry appended to the audit trail, with the message
  \<open>No valid transition found\<close>, and one warning handed to the logger: the current
  state, the handlers and the callbacks are those of before, and no handler, action or
  callback is run. The example of the claim (one unguarded edge
  from INITIAL to RUNNING, \<open>transition("start")\<close> twice) is the witness below: the first
  call succeeds, the second fails, and the audit trail holds one success and one failure.
\<close>

theorem transition_no_edge:
  assumes "\<forall>tr \<in> set (outgoing sm (current_state sm)). \<not> edge_accepts tr ctx"
  shows "transition sm trigger ctx user uid now =
           (False, sm\<lparr>audit_trail := audit_trail sm @
              [\<lparr>ae_entry_id = uid, ae_timestamp = now, ae_from_state = current_state sm,
                ae_to_state = '''', ae_trigger = trigger, ae_user = user, ae_success = False,
                ae_error_message = Some ''No valid transition found'', ae_metadata = []\<rparr>],
              effects := effects sm @
                [Logged LOG_WARNING (''No valid transition from '' @ current_state sm)]\<rparr>)"
proof -
  have "find_transition (outgoing sm (current_state sm)) ctx = None"
    using assms edge_selected_accepts by (auto simp add: find_transition_None)
  then show ?thesis by (simp add: transition_def)
qed


theorem transition_no_edge_witness:
  "fst (transition example_machine ''start'' None ''system'' ''e1'' 1) = True
   \<and> current_state (snd (transition example_machine ''start'' None ''system'' ''e1'' 1)) = ''RUNNING''
   \<and> outgoing (snd (transition example_machine ''start'' None ''system'' ''e1'' 1)) ''RUNNING'' = []
   \<and> fst (transition (snd (transition example_machine ''start'' None ''system'' ''e1'' 1))
           ''start'' None ''system'' ''e2'' 2) = False
   \<and> map ae_success (audit_trail (snd (transition (snd (transition example_machine ''start'' None ''system'' ''e1'' 1))
           ''start'' None ''system'' ''e2'' 2))) = [True, False]"
proof -
  let ?sm = "snd (transition example_machine ''start'' None ''system'' ''e1'' 1)"
  have cur: "current_state ?sm = ''RUNNING''" by (simp add: example_machine_first)
  have out: "outgoing ?sm ''RUNNING'' = []"
    by (simp add: example_machine_first)
       (simp add: example_machine_def add_transition_def define_state_def StateMachine_init_def
          start_edge_def outgoing_def)
  have h: "\<forall>tr \<in> set (outgoing ?sm (current_state ?sm)). \<not> edge_accepts tr None"
    by (simp add: cur out)
  show ?thesis
    using transition_no_edge [OF h, of "''start''" "''system''" "''e2''" 2] cur out
    by (simp add: example_machine_first)
qed

text \<open>
  C9, as stated: the trigger only appears in the trigger field of the recorded audit
  entry. A successful transition ends with \<open>self.logger.debug\<close>, and the text handed to
  the logger contains the trigger: from the same machine, two triggers give two different
  log lines.
\<close>

theorem trigger_only_in_audit_counterexample:
  "fst (transition example_machine ''start'' None ''system'' ''e1'' 1)
   \<and> fst (transition example_machine ''go'' None ''system'' ''e1'' 1)
   \<and> last (effects (snd (transition example_machine ''start'' None ''system'' ''e1'' 1)))
       = Logged LOG_DEBUG ''Transitioned INITIAL -> RUNNING (trigger: start)''
   \<and> last (effects (snd (transition example_machine ''go'' None ''system'' ''e1'' 1)))
       = Logged LOG_DEBUG ''Transitioned INITIAL -> RUNNING (trigger: go)''
   \<and> snd (transition example_machine ''go'' None ''system'' ''e1'' 1)
       \<noteq> (snd (transition example_machine ''start'' None ''system'' ''e1'' 1))
           \<lparr>audit_trail := audit_trail example_machine @
              [(last (audit_trail (snd (transition example_machine ''start'' None ''system'' ''e1'' 1))))
                 \<lparr>ae_trigger := ''go''\<rparr>]\<rparr>"
  by (simp add: example_machine_def add_transition_def define_state_def StateMachine_init_def
        start_edge_def transition_def outgoing_def edge_selected_def Let_def)

text \<open>
  C9, amended: the trigger does not take part in the choice of the edge
  (\<open>find_transition\<close> does not receive it). From the same machine, with the same context
  and actor, two triggers give the same boolean and the same resulting state, and the two
  resulting machines differ only in the trigger field of the audit entry just appended
  and, when the transition succeeded, in the debug line handed to the logger at the end,
  which carries the trigger: the handlers, the action and the callbacks run are the same.
\<close>

theorem transition_trigger_independent:
  "fst (transition sm t1 ctx user uid now) = fst (transition sm t2 ctx user uid now)
   \<and> current_state (snd (transition sm t1 ctx user uid now))
       = current_state (snd (transition sm t2 ctx user uid now))
   \<and> snd (transition sm t2 ctx user uid now)
       = (snd (transition sm t1 ctx user uid now))
           \<lparr>audit_trail := audit_trail sm @
              [(last (audit_trail (snd (transition sm t1 ctx user uid now))))\<lparr>ae_trigger := t2\<rparr>],
            effects :=
              (if fst (transition sm t1 ctx user uid now)
               then butlast (effects (snd (transition sm t1 ctx user uid now))) @
                 [Logged LOG_DEBUG
                    (''Transitioned '' @ current_state sm @ '' -> '' @
                     current_state (snd (transition sm t1 ctx user uid now)) @
                     '' (trigger: '' @ t2 @ '')'')]
               else effects (snd (transition sm t1 ctx user uid now)))\<rparr>"
  by (simp add: transition_def Let_def butlast_append split: option.splits)

lemma sm_inv_init: "sm_inv init (StateMachine_init init)"
  by (simp add: sm_inv_def StateMachine_init_def outgoing_def)

lemma sm_inv_define_state: "sm_inv init sm \<Longrightarrow> sm_inv init (define_state sm s ty)"
  by (auto simp add: sm_inv_def define_state_def outgoing_def)

lemma sm_inv_add_transition: "sm_inv init sm \<Longrightarrow> sm_inv init (add_transition sm tr)"
  by (auto simp add: sm_inv_def add_transition_def outgoing_def split: if_splits option.splits)

lemma transition_success:
  assumes "fst (transition sm trigger ctx user uid now)"
  shows "\<exists>tr \<in> set (outgoing sm (current_state sm)).
           edge_selected tr ctx \<and>
           current_state (snd (transition sm trigger ctx user uid now)) = to_state tr"
  using assms find_transition_Some
  by (fastforce simp add: transition_def Let_def split: option.splits)

lemma transition_keeps:
  "states (snd (transition sm trigger ctx user uid now)) = states sm
   \<and> transitions (snd (transition sm trigger ctx user uid now)) = transitions sm"
  by (simp add: transition_def Let_def split: option.splits)

lemma transition_failure_state:
  "\<not> fst (transition sm trigger ctx user uid now) \<Longrightarrow>
   current_state (snd (transition sm trigger ctx user uid now)) = current_state sm"
  by (simp add: transition_def Let_def split: option.splits)

lemma sm_inv_transition:
  assumes "sm_inv init sm"
  shows "sm_inv init (snd (transition sm trigger ctx user uid now))"
proof (cases "fst (transition sm trigger ctx user uid now)")
  case True
  from transition_success [OF True] obtain tr where
    tr: "tr \<in> set (outgoing sm (current_state sm))"
        "current_state (snd (transition sm trigger ctx user uid now)) = to_state tr" by blast
  with assms have "to_state tr \<in> dom (states sm)" by (simp add: sm_inv_def)
  with assms tr show ?thesis
    using transition_keeps [of sm trigger ctx user uid now]
    by (simp add: sm_inv_def outgoing_def)
next
  case False
  with assms show ?thesis
    using transition_keeps [of sm trigger ctx user uid now] transition_failure_state [OF False]
    by (simp add: sm_inv_def outgoing_def)
qed

lemma sm_inv_run_call: "sm_inv init sm \<Longrightarrow> sm_inv init (run_call sm c)"
  by (cases c) (simp_all add: sm_inv_define_state sm_inv_add_transition sm_inv_transition)

lemma sm_inv_run_calls: "sm_inv init sm \<Longrightarrow> sm_inv init (run_calls sm calls)"
  unfolding run_calls_def by (induction calls arbitrary: sm) (simp_all add: sm_inv_run_call)

text \<open>
  C8, as stated: after construction (and any sequence of calls) the current state is one
  of the declared states. Right after \<open>StateMachine("INITIAL")\<close> no state is declared:
  the constructor sets \<open>current_state\<close> and leaves \<open>states\<close> empty.
\<close>

theorem current_state_declared_counterexample:
  "\<not> (current_state (run_calls (StateMachine_init ''INITIAL'') [])
        \<in> dom (states (run_calls (StateMachine_init ''INITIAL'') [])))"
  by (simp add: run_calls_def StateMachine_init_def)

text \<open>
  C8, amended: after construction and any sequence of \<open>define_state\<close>,
  \<open>add_transition\<close> and \<open>transition\<close> calls, the current state is the constructor's
  initial state or a declared state; and a transition succeeds only when an edge stored for
  the current state, whose two end states are declared, has its guard (if any) and all its
  guard clauses accepting the context, and the machine moves to that edge's target.
\<close>

theorem state_machine_invariant:
  "(current_state (run_calls (StateMachine_init init) calls) = init
      \<or> current_state (run_calls (StateMachine_init init) calls)
           \<in> dom (states (run_calls (StateMachine_init init) calls)))
   \<and> (fst (transition (run_calls (StateMachine_init init) calls) trigger ctx user uid now) \<longrightarrow>
        (\<exists>tr \<in> set (outgoing (run_calls (StateMachine_init init) calls)
                       (current_state (run_calls (StateMachine_init init) calls))).
            from_state tr = current_state (run_calls (StateMachine_init init) calls)
          \<and> from_state tr \<in> dom (states (run_calls (StateMachine_init init) calls))
          \<and> to_state tr \<in> dom (states (run_calls (StateMachine_init init) calls))
          \<and> edge_accepts tr ctx
          \<and> current_state (snd (transition (run_calls (StateMachine_init init) calls)
                trigger ctx user uid now)) = to_state tr))"
proof -
  let ?sm = "run_calls (StateMachine_init init) calls"
  have inv: "sm_inv init ?sm" by (rule sm_inv_run_calls [OF sm_inv_init])
  have a: "current_state ?sm = init \<or> current_state ?sm \<in> dom (states ?sm)"
    using inv by (simp add: sm_inv_def)
  have b: "\<exists>tr \<in> set (outgoing ?sm (current_state ?sm)).
            from_state tr = current_state ?sm \<and> from_state tr \<in> dom (states ?sm)
          \<and> to_state tr \<in> dom (states ?sm) \<and> edge_accepts tr ctx
          \<and> current_state (snd (transition ?sm trigger ctx user uid now)) = to_state tr"
    if "fst (transition ?sm trigger ctx user uid now)"
  proof -
    from transition_success [OF that] obtain tr where
      tr: "tr \<in> set (outgoing ?sm (current_state ?sm))" "edge_selected tr ctx"
          "current_state (snd (transition ?sm trigger ctx user uid now)) = to_state tr" by blast
    from inv tr(1) have "from_state tr = current_state ?sm \<and> current_state ?sm \<in> dom (states ?sm)
        \<and> to_state tr \<in> dom (states ?sm)"
      unfolding sm_inv_def by blast
    with tr edge_selected_accepts show ?thesis by metis
  qed
  from a b show ?thesis by blast
qed

theorem state_machine_invariant_witness:
  "fst (transition (run_calls (StateMachine_init ''INITIAL'')
          [DefineState ''INITIAL'' INITIAL, DefineState ''RUNNING'' INTERMEDIATE,
           DefineState ''DONE'' TERMINAL, AddTransition start_edge])
          ''start'' None ''system'' ''e1'' 1)
   \<and> (\<exists>tr \<in> set (outgoing (run_calls (StateMachine_init ''INITIAL'')
          [DefineState ''INITIAL'' INITIAL, DefineState ''RUNNING'' INTERMEDIATE,
           DefineState ''DONE'' TERMINAL, AddTransition start_edge]) ''INITIAL'').
         from_state tr = ''INITIAL'' \<and> edge_accepts tr None \<and> to_state tr = ''RUNNING'')"
proof -
  let ?sm = "run_calls (StateMachine_init ''INITIAL'')
          [DefineState ''INITIAL'' INITIAL, DefineState ''RUNNING'' INTERMEDIATE,
           DefineState ''DONE'' TERMINAL, AddTransition start_edge]"
  have eq: "?sm = example_machine" by (simp add: run_calls_def example_machine_def)
  have f: "fst (transition ?sm ''start'' None ''system'' ''e1'' 1)"
    by (simp add: eq example_machine_first)
  have c: "current_state ?sm = ''INITIAL''"
    unfolding eq
    by (simp add: example_machine_def add_transition_def define_state_def
          StateMachine_init_def start_edge_def)
  show ?thesis
    using state_machine_invariant [of "''INITIAL''" "[DefineState ''INITIAL'' INITIAL,
      DefineState ''RUNNING'' INTERMEDIATE, DefineState ''DONE'' TERMINAL,
      AddTransition start_edge]" "''start''" None "''system''" "''e1''" 1] f c
    by (auto simp add: eq example_machine_first)
qed

subsection \<open>Message broker\<close>












text \<open>
  C2: among messages of equal priority the receive order is to be the send order; the
  docstring of \<open>MessageQueue\<close> promises it too (\<open>FIFO fallback\<close>). The code does not
  keep it. Four NORMAL messages with one and the same time stamp, sent in the order "a",
  "b", "c", "d" into an empty mailbox, are all accepted and are received in the order "a",
  "c", "b", "d": the heap compares equal messages as not smaller and is not stable. Two
  NORMAL messages of which the first one sent carries the later time stamp (the time stamp
  is set when the message is created, not when it is sent) are received in the opposite
  order. The order by priority is kept: the example of the claim (NORMAL "a", HIGH "b",
  LOW "c") is received as "b", "a", "c".
\<close>

theorem receive_order_not_fifo:
  "map_option fst (send_all (MessageBroker_init 1000)
       [msg NORMAL (Naive 0) ''a'', msg NORMAL (Naive 0) ''b'',
        msg NORMAL (Naive 0) ''c'', msg NORMAL (Naive 0) ''d''] 0)
     = Some [True, True, True, True]
   \<and> receive_all (snd (the (send_all (MessageBroker_init 1000)
       [msg NORMAL (Naive 0) ''a'', msg NORMAL (Naive 0) ''b'',
        msg NORMAL (Naive 0) ''c'', msg NORMAL (Naive 0) ''d''] 0))) ''agent2'' 4
     = [Some (msg NORMAL (Naive 0) ''a''), Some (msg NORMAL (Naive 0) ''c''),
        Some (msg NORMAL (Naive 0) ''b''), Some (msg NORMAL (Naive 0) ''d'')]
   \<and> spec_receive_order
       [msg NORMAL (Naive 0) ''a'', msg NORMAL (Naive 0) ''b'',
        msg NORMAL (Naive 0) ''c'', msg NORMAL (Naive 0) ''d'']
     = [msg NORMAL (Naive 0) ''a'', msg NORMAL (Naive 0) ''b'',
        msg NORMAL (Naive 0) ''c'', msg NORMAL (Naive 0) ''d'']
   \<and> map_option fst (send_all (MessageBroker_init 1000)
       [msg NORMAL (Naive 2) ''a'', msg NORMAL (Naive 1) ''b''] 0) = Some [True, True]
   \<and> receive_all (snd (the (send_all (MessageBroker_init 1000)
       [msg NORMAL (Naive 2) ''a'', msg NORMAL (Naive 1) ''b''] 0))) ''agent2'' 2
     = [Some (msg NORMAL (Naive 1) ''b''), Some (msg NORMAL (Naive 2) ''a'')]
   \<and> spec_receive_order [msg NORMAL (Naive 2) ''a'', msg NORMAL (Naive 1) ''b'']
     = [msg NORMAL (Naive 2) ''a'', msg NORMAL (Naive 1) ''b'']
   \<and> map_option fst (send_all (MessageBroker_init 1000)
       [msg NORMAL (Naive 1) ''a'', msg HIGH (Naive 2) ''b'', msg LOW (Naive 3) ''c''] 0)
     = Some [True, True, True]
   \<and> receive_all (snd (the (send_all (MessageBroker_init 1000)
       [msg NORMAL (Naive 1) ''a'', msg HIGH (Naive 2) ''b'', msg LOW (Naive 3) ''c''] 0))) ''agent2'' 3
     = [Some (msg HIGH (Naive 2) ''b''), Some (msg NORMAL (Naive 1) ''a''),
        Some (msg LOW (Naive 3) ''c'')]"
  by code_simp

subsection \<open>Workflow validation\<close>

lemma neighbors_graph_add_same:
  "neighbors (graph_add g k i) k
     = (if i \<in> set (neighbors g k) then neighbors g k else neighbors g k @ [i])"
  unfolding graph_add_def by (simp add: neighbors_def)

lemma neighbors_graph_add_other: "x \<noteq> k \<Longrightarrow> neighbors (graph_add g k i) x = neighbors g x"
  unfolding graph_add_def by (simp add: neighbors_def)

lemma neighbors_graph_add:
  "set (neighbors (graph_add g k i) x)
     = (if x = k then insert i (set (neighbors g k)) else set (neighbors g x))"
  by (cases "x = k") (auto simp add: neighbors_graph_add_same neighbors_graph_add_other)

lemma neighbors_add_dependencies:
  "set (neighbors (dependency_graph (add_dependencies r t deps)) x)
     = set (neighbors (dependency_graph r) x) \<union> (if x = t then set deps else {})"
  by (induction r t deps rule: add_dependencies.induct) (auto simp add: neighbors_graph_add)

lemma neighbors_add_tasks:
  "set (neighbors (dependency_graph (add_tasks r ts)) x)
     = set (neighbors (dependency_graph r) x)
       \<union> {dep. \<exists>task. (x, task) \<in> set ts \<and> dep \<in> set (dependencies task)}"
  by (induction r ts rule: add_tasks.induct) (auto simp add: neighbors_add_dependencies)

lemma built_graph_edges:
  "graph_edges (dependency_graph
      (add_tasks (r\<lparr>dependency_graph := Map.empty, reverse_graph := Map.empty\<rparr>) (tasks w)))
     = depends_on w"
  by (auto simp add: graph_edges_def depends_on_def neighbors_add_tasks) (simp_all add: neighbors_def)

lemma closed_rtrancl:
  assumes "\<forall>x \<in> F. \<forall>y. (x, y) \<in> E \<longrightarrow> y \<in> F" and "(y, z) \<in> E\<^sup>*" and "y \<in> F"
  shows "z \<in> F"
  using assms(2,3,1) by (induction rule: rtrancl_induct) auto

lemma inv_push:
  assumes "dfs_inv g st" and "n \<notin> visited st"
  shows "dfs_inv g (st\<lparr>visited := insert n (visited st), rec_stack := insert n (rec_stack st)\<rparr>)"
proof -
  have "finished (st\<lparr>visited := insert n (visited st), rec_stack := insert n (rec_stack st)\<rparr>)
          = finished st"
    using assms(2) by (auto simp add: finished_def)
  then show ?thesis using assms(1) by (auto simp add: dfs_inv_def)
qed

lemma inv_pop:
  assumes inv: "dfs_inv g st" and n: "n \<in> rec_stack st"
    and nb: "set (neighbors g n) \<subseteq> finished st"
  shows "dfs_inv g (st\<lparr>rec_stack := rec_stack st - {n}\<rparr>)"
proof -
  let ?E = "graph_edges g"
  let ?st = "st\<lparr>rec_stack := rec_stack st - {n}\<rparr>"
  have nv: "n \<in> visited st" using inv n by (auto simp add: dfs_inv_def)
  have F: "finished ?st = insert n (finished st)"
    using n nv by (auto simp add: finished_def)
  have closed: "\<forall>x \<in> finished st. \<forall>y. (x, y) \<in> ?E \<longrightarrow> y \<in> finished st"
    using inv by (simp add: dfs_inv_def)
  have nn: "(n, n) \<notin> ?E\<^sup>+"
  proof
    assume "(n, n) \<in> ?E\<^sup>+"
    then obtain y where y: "(n, y) \<in> ?E" "(y, n) \<in> ?E\<^sup>*" by (meson tranclD)
    then have "y \<in> finished st" using nb by (auto simp add: graph_edges_def)
    then have "n \<in> finished st" using closed_rtrancl [OF closed y(2)] by simp
    then show False using n by (simp add: finished_def)
  qed
  have "rec_stack ?st \<subseteq> visited ?st" using inv by (auto simp add: dfs_inv_def)
  moreover have "\<forall>x \<in> finished ?st. \<forall>y. (x, y) \<in> ?E \<longrightarrow> y \<in> finished ?st"
    using closed nb unfolding F by (auto simp add: graph_edges_def)
  moreover have "\<forall>x \<in> finished ?st. (x, x) \<notin> ?E\<^sup>+"
    using inv nn unfolding F by (auto simp add: dfs_inv_def)
  ultimately show ?thesis by (simp add: dfs_inv_def)
qed

lemma dfs_correct:
  "dfs d g n st = Some (r, st') \<Longrightarrow> n \<notin> visited st \<Longrightarrow> dfs_inv g st \<Longrightarrow>
     \<forall>s \<in> rec_stack st. (s, n) \<in> (graph_edges g)\<^sup>* \<Longrightarrow>
     (r \<longrightarrow> \<not> acyclic (graph_edges g))
     \<and> (\<not> r \<longrightarrow> dfs_inv g st' \<and> rec_stack st' = rec_stack st
                \<and> insert n (visited st) \<subseteq> visited st')"
  "dfs_neighbors d g l st = Some (r, st') \<Longrightarrow> dfs_inv g st \<Longrightarrow> n \<in> rec_stack st \<Longrightarrow>
     set l \<subseteq> set (neighbors g n) \<Longrightarrow>
     \<forall>s \<in> rec_stack st. (s, n) \<in> (graph_edges g)\<^sup>* \<Longrightarrow>
     (r \<longrightarrow> \<not> acyclic (graph_edges g))
     \<and> (\<not> r \<longrightarrow> dfs_inv g st' \<and> rec_stack st' = rec_stack st \<and> visited st \<subseteq> visited st'
                \<and> set l \<subseteq> finished st')"
proof (induction d g n st and d g l st arbitrary: r st' and r st' n rule: dfs_dfs_neighbors.induct)
  case (1 graph node st)
  then show ?case by simp
next
  case (2 depth graph node st)
  let ?E = "graph_edges graph"
  let ?st1 = "st\<lparr>visited := insert node (visited st), rec_stack := insert node (rec_stack st)\<rparr>"
  from "2.prems"(1) obtain r1 st2 where
    run: "dfs_neighbors depth graph (neighbors graph node) ?st1 = Some (r1, st2)"
    by (auto split: option.splits)
  have inv1: "dfs_inv graph ?st1" by (rule inv_push [OF "2.prems"(3,2)])
  have reach: "\<forall>s \<in> rec_stack ?st1. (s, node) \<in> ?E\<^sup>*" using "2.prems"(4) by simp
  have "(r1 \<longrightarrow> \<not> acyclic ?E)
     \<and> (\<not> r1 \<longrightarrow> dfs_inv graph st2 \<and> rec_stack st2 = rec_stack ?st1
              \<and> visited ?st1 \<subseteq> visited st2
              \<and> set (neighbors graph node) \<subseteq> finished st2)"
    by (rule "2.IH" [OF run inv1 _ _ reach]) simp_all
  note IH = this
  show ?case
  proof (cases r1)
    case True
    then have "r = True" using "2.prems"(1) run by simp
    then show ?thesis using IH True by simp
  next
    case False
    then have r: "r = False" and st': "st' = st2\<lparr>rec_stack := rec_stack st2 - {node}\<rparr>"
      using "2.prems"(1) run by simp_all
    from IH False have inv2: "dfs_inv graph st2"
      and rs: "rec_stack st2 = insert node (rec_stack st)"
      and vis: "insert node (visited st) \<subseteq> visited st2"
      and fin: "set (neighbors graph node) \<subseteq> finished st2" by simp_all
    have "dfs_inv graph st'" unfolding st' by (rule inv_pop [OF inv2 _ fin]) (simp add: rs)
    moreover have "rec_stack st' = rec_stack st"
    proof -
      have "node \<notin> rec_stack st" using "2.prems"(2,3) by (auto simp add: dfs_inv_def)
      then show ?thesis by (simp add: st' rs)
    qed
    moreover have "insert node (visited st) \<subseteq> visited st'" using vis by (simp add: st')
    ultimately show ?thesis using r by simp
  qed
next
  case (3 depth graph st)
  then show ?case by simp
next
  case (4 depth graph neighbor rest st)
  let ?E = "graph_edges graph"
  have edge: "(n, neighbor) \<in> ?E" using "4.prems"(4) by (simp add: graph_edges_def)
  show ?case
  proof (cases "neighbor \<notin> visited st")
    case True
    from "4.prems"(1) True obtain r1 st1 where
      run: "dfs depth graph neighbor st = Some (r1, st1)" by (auto split: option.splits)
    have reach: "\<forall>s \<in> rec_stack st. (s, neighbor) \<in> ?E\<^sup>*"
      using "4.prems"(5) edge by (meson rtrancl.rtrancl_into_rtrancl)
    note IH1 = "4.IH"(1) [OF True run True "4.prems"(2) reach]
    show ?thesis
    proof (cases r1)
      case r1: True
      then have "r = True" using "4.prems"(1) True run by simp
      then show ?thesis using IH1 r1 by simp
    next
      case r1: False
      then have rest: "dfs_neighbors depth graph rest st1 = Some (r, st')"
        using "4.prems"(1) True run by simp
      from IH1 r1 have inv1: "dfs_inv graph st1" and rs: "rec_stack st1 = rec_stack st"
        and vis: "insert neighbor (visited st) \<subseteq> visited st1" by simp_all
      have n1: "n \<in> rec_stack st1" using "4.prems"(3) rs by simp
      have sub: "set rest \<subseteq> set (neighbors graph n)" using "4.prems"(4) by simp
      have reach1: "\<forall>s \<in> rec_stack st1. (s, n) \<in> ?E\<^sup>*" using "4.prems"(5) rs by simp
      have r1f: "r1 = False" using r1 by simp
      note IH2 = "4.IH"(2) [OF True run refl r1f rest inv1 n1 sub reach1]
      have nbfin: "neighbor \<in> finished st'" if "\<not> r"
      proof -
        from IH2 that have a: "rec_stack st' = rec_stack st1" "visited st1 \<subseteq> visited st'" by simp_all
        have "neighbor \<notin> rec_stack st" using True "4.prems"(2) by (auto simp add: dfs_inv_def)
        then show ?thesis using a vis rs by (auto simp add: finished_def)
      qed
      show ?thesis using IH2 nbfin vis rs by auto
    qed
  next
    case False
    show ?thesis
    proof (cases "neighbor \<in> rec_stack st")
      case True
      then have r: "r = True" using "4.prems"(1) False by simp
      have "(neighbor, n) \<in> ?E\<^sup>*" using "4.prems"(5) True by simp
      then have "(neighbor, neighbor) \<in> ?E\<^sup>+" using edge by (rule rtrancl_into_trancl1)
      then have "\<not> acyclic ?E" by (auto simp add: acyclic_def)
      then show ?thesis using r by simp
    next
      case nrs: False
      then have rest: "dfs_neighbors depth graph rest st = Some (r, st')"
        using "4.prems"(1) False by simp
      have sub: "set rest \<subseteq> set (neighbors graph n)" using "4.prems"(4) by simp
      note IH3 = "4.IH"(3) [OF False nrs rest "4.prems"(2,3) sub "4.prems"(5)]
      have nbfin: "neighbor \<in> finished st'" if "\<not> r"
      proof -
        from IH3 False that have a: "rec_stack st' = rec_stack st" "visited st \<subseteq> visited st'"
          by simp_all
        then show ?thesis using False nrs by (auto simp add: finished_def)
      qed
      show ?thesis using IH3 False nbfin by auto
    qed
  qed
qed

lemma dfs_mono:
  "dfs d g n st = Some (r, st') \<Longrightarrow> visited st \<subseteq> visited st'"
  "dfs_neighbors d g l st = Some (r, st') \<Longrightarrow> visited st \<subseteq> visited st'"
proof (induction d g n st and d g l st arbitrary: r st' and r st' rule: dfs_dfs_neighbors.induct)
  case (1 graph node st)
  then show ?case by simp
next
  case (2 depth graph node st)
  from "2.prems" obtain r1 st2 where
    run: "dfs_neighbors depth graph (neighbors graph node)
            (st\<lparr>visited := insert node (visited st), rec_stack := insert node (rec_stack st)\<rparr>)
          = Some (r1, st2)"
    by (auto split: option.splits)
  have "visited st' = visited st2" using "2.prems" run by (cases r1) auto
  then show ?case using "2.IH" [OF run] by auto
next
  case (3 depth graph st)
  then show ?case by simp
next
  case (4 depth graph neighbor rest st)
  show ?case
  proof (cases "neighbor \<notin> visited st")
    case True
    from "4.prems" True obtain r1 st1 where
      run: "dfs depth graph neighbor st = Some (r1, st1)" by (auto split: option.splits)
    note a = "4.IH"(1) [OF True run]
    show ?thesis
    proof (cases r1)
      case True
      then show ?thesis using "4.prems" \<open>neighbor \<notin> visited st\<close> run a by simp
    next
      case False
      then have rest: "dfs_neighbors depth graph rest st1 = Some (r, st')"
        using "4.prems" True run by simp
      have r1f: "r1 = False" using False by simp
      from "4.IH"(2) [OF True run refl r1f rest] a show ?thesis by blast
    qed
  next
    case False
    show ?thesis
    proof (cases "neighbor \<in> rec_stack st")
      case True
      then show ?thesis using "4.prems" False by simp
    next
      case nrs: False
      then have rest: "dfs_neighbors depth graph rest st = Some (r, st')"
        using "4.prems" False by simp
      from "4.IH"(3) [OF False nrs rest] show ?thesis .
    qed
  qed
qed

lemma dfs_returns:
  assumes fin: "finite K"
  shows "\<forall>x. x \<notin> K \<longrightarrow> neighbors g x = [] \<Longrightarrow> n \<notin> visited st \<Longrightarrow>
           card (K - visited st) < d \<Longrightarrow> dfs d g n st \<noteq> None"
    and "\<forall>x. x \<notin> K \<longrightarrow> neighbors g x = [] \<Longrightarrow> l = [] \<or> card (K - visited st) < d \<Longrightarrow>
           dfs_neighbors d g l st \<noteq> None"
proof (induction d g n st and d g l st rule: dfs_dfs_neighbors.induct)
  case (1 graph node st)
  then show ?case by simp
next
  case (2 depth graph node st)
  let ?st1 = "st\<lparr>visited := insert node (visited st), rec_stack := insert node (rec_stack st)\<rparr>"
  have "neighbors graph node = [] \<or> card (K - visited ?st1) < depth"
  proof (cases "node \<in> K")
    case True
    then have "card (K - insert node (visited st)) < card (K - visited st)"
      using fin "2.prems"(2) by (intro psubset_card_mono) auto
    then show ?thesis using "2.prems"(3) by simp
  next
    case False
    then show ?thesis using "2.prems"(1) by simp
  qed
  then have "dfs_neighbors depth graph (neighbors graph node) ?st1 \<noteq> None"
    by (rule "2.IH" [OF "2.prems"(1)])
  then show ?case by (auto split: option.splits bool.splits)
next
  case (3 depth graph st)
  then show ?case by simp
next
  case (4 depth graph neighbor rest st)
  note dom = "4.prems"(1)
  have c: "card (K - visited st) < depth" using "4.prems"(2) by simp
  show ?case
  proof (cases "neighbor \<notin> visited st")
    case True
    have ok: "dfs depth graph neighbor st \<noteq> None" by (rule "4.IH"(1) [OF True dom True c])
    then obtain r1 st1 where run: "dfs depth graph neighbor st = Some (r1, st1)" by auto
    show ?thesis
    proof (cases r1)
      case True
      then show ?thesis using \<open>neighbor \<notin> visited st\<close> run by simp
    next
      case False
      then have r1f: "r1 = False" by simp
      have "visited st \<subseteq> visited st1" using dfs_mono(1) [OF run] .
      then have "card (K - visited st1) \<le> card (K - visited st)"
        using fin by (intro card_mono) auto
      then have "rest = [] \<or> card (K - visited st1) < depth" using c by simp
      then have "dfs_neighbors depth graph rest st1 \<noteq> None"
        by (rule "4.IH"(2) [OF True run refl r1f dom])
      then show ?thesis using True run r1f by simp
    qed
  next
    case False
    show ?thesis
    proof (cases "neighbor \<in> rec_stack st")
      case True
      then show ?thesis using False by simp
    next
      case nrs: False
      have "dfs_neighbors depth graph rest st \<noteq> None"
        using "4.IH"(3) [OF False nrs dom] c by simp
      then show ?thesis using False nrs by simp
    qed
  qed
qed

lemma has_cycle_loop_returns:
  assumes fin: "finite K" and dom: "\<forall>x. x \<notin> K \<longrightarrow> neighbors g x = []" and c: "card K < d"
  shows "has_cycle_loop d g ts st \<noteq> None"
proof (induction ts arbitrary: st)
  case Nil
  then show ?case by simp
next
  case (Cons t ts)
  have ck: "card (K - visited st) < d"
    using c fin by (meson Diff_subset card_mono le_less_trans)
  show ?case
  proof (cases "t \<notin> visited st")
    case True
    from dfs_returns(1) [OF fin dom True ck] obtain r1 st1 where
      run: "dfs d g t st = Some (r1, st1)" by auto
    then show ?thesis using True Cons.IH by (cases r1) simp_all
  next
    case False
    then show ?thesis using Cons.IH by simp
  qed
qed

lemma has_cycle_loop_correct:
  "has_cycle_loop d g ts st = Some r \<Longrightarrow> dfs_inv g st \<Longrightarrow> rec_stack st = {} \<Longrightarrow>
     (r \<longrightarrow> \<not> acyclic (graph_edges g))
     \<and> (\<not> r \<longrightarrow> (\<exists>st'. dfs_inv g st' \<and> rec_stack st' = {} \<and> set ts \<union> visited st \<subseteq> visited st'))"
proof (induction ts arbitrary: st)
  case Nil
  then show ?case by auto
next
  case (Cons t ts)
  show ?case
  proof (cases "t \<notin> visited st")
    case True
    from Cons.prems(1) True obtain r1 st1 where
      run: "dfs d g t st = Some (r1, st1)" by (auto split: option.splits)
    have reach: "\<forall>s \<in> rec_stack st. (s, t) \<in> (graph_edges g)\<^sup>*" using Cons.prems(3) by simp
    note d = dfs_correct(1) [OF run True Cons.prems(2) reach]
    show ?thesis
    proof (cases r1)
      case r1: True
      then have "r = True" using Cons.prems(1) True run by simp
      then show ?thesis using d r1 by simp
    next
      case r1: False
      then have rest: "has_cycle_loop d g ts st1 = Some r" using Cons.prems(1) True run by simp
      from d r1 have inv1: "dfs_inv g st1" and rs: "rec_stack st1 = {}"
        and vis: "insert t (visited st) \<subseteq> visited st1" using Cons.prems(3) by simp_all
      from Cons.IH [OF rest inv1 rs] vis show ?thesis by (auto; blast)
    qed
  next
    case False
    then have rest: "has_cycle_loop d g ts st = Some r" using Cons.prems(1) by simp
    from Cons.IH [OF rest Cons.prems(2,3)] False show ?thesis by auto
  qed
qed

lemma dfs_inv_start: "dfs_inv g \<lparr>visited = {}, rec_stack = {}\<rparr>"
  by (simp add: dfs_inv_def finished_def)

lemma has_cycle_correct:
  assumes "length (tasks w) < d"
    and g: "graph_edges (dependency_graph r) = depends_on w"
  shows "has_cycle d r w = Some (\<not> acyclic (depends_on w))"
proof -
  let ?K = "fst ` set (tasks w)"
  let ?g = "dependency_graph r"
  have fin: "finite ?K" by simp
  have domE: "Domain (depends_on w) \<subseteq> ?K" by (force simp add: depends_on_def)
  have dom: "\<forall>x. x \<notin> ?K \<longrightarrow> neighbors ?g x = []"
  proof (intro allI impI)
    fix x assume x: "x \<notin> ?K"
    show "neighbors ?g x = []"
    proof (rule ccontr)
      assume "neighbors ?g x \<noteq> []"
      then obtain y where "y \<in> set (neighbors ?g x)" by (meson last_in_set)
      then have "(x, y) \<in> depends_on w" using g by (auto simp add: graph_edges_def)
      then show False using domE x by blast
    qed
  qed
  have "card ?K \<le> length (tasks w)" by (metis card_image_le card_length le_trans List.finite_set)
  then have c: "card ?K < d" using assms(1) by simp
  from has_cycle_loop_returns [OF fin dom c] obtain res where
    res: "has_cycle_loop d ?g (map fst (tasks w)) \<lparr>visited = {}, rec_stack = {}\<rparr> = Some res"
    by blast
  note hc = has_cycle_loop_correct [OF res dfs_inv_start]
  have "res = (\<not> acyclic (depends_on w))"
  proof (cases res)
    case True
    then show ?thesis using hc g by simp
  next
    case False
    with hc obtain st' where st': "dfs_inv ?g st'" "rec_stack st' = {}" "?K \<subseteq> visited st'"
      by auto
    have "acyclic (depends_on w)"
      unfolding acyclic_def
    proof (intro allI notI)
      fix x assume cyc: "(x, x) \<in> (depends_on w)\<^sup>+"
      then have "x \<in> Domain (depends_on w)" by (meson Domain.DomainI tranclD)
      then have "x \<in> finished st'" using domE st'(2,3) by (auto simp add: finished_def)
      then show False using st'(1) cyc g by (auto simp add: dfs_inv_def)
    qed
    then show ?thesis using False by simp
  qed
  then show ?thesis using res by (simp add: has_cycle_def)
qed

lemma dependencies_exist_iff:
  "dependencies_exist w = (Range (depends_on w) \<subseteq> fst ` set (tasks w))"
  by (fastforce simp add: dependencies_exist_def depends_on_def list_all_iff)

lemma build_graph_correct:
  assumes "length (tasks w) < d"
  shows "\<exists>r1. build_graph d r w = Some (acyclic (depends_on w), r1)
           \<and> graph_edges (dependency_graph r1) = depends_on w"
  using has_cycle_correct [OF assms built_graph_edges, of r]
  by (cases "acyclic (depends_on w)") (simp_all add: build_graph_def Let_def built_graph_edges)

lemma validate_workflow_result:
  assumes "length (tasks w) < d"
  shows "\<exists>m1. validate_workflow d m w
           = Some (tasks w \<noteq> [] \<and> acyclic (depends_on w)
                   \<and> Range (depends_on w) \<subseteq> fst ` set (tasks w), m1)"
proof -
  from build_graph_correct [OF assms, of "resolver m"] obtain r1 where
    "build_graph d (resolver m) w = Some (acyclic (depends_on w), r1)" by blast
  then show ?thesis
    by (cases "acyclic (depends_on w)") (auto simp add: validate_workflow_def dependencies_exist_iff)
qed

lemma cycle_workflow_rejected:
  "map_option fst (validate_workflow 4 WorkflowManager_init cycle_workflow) = Some False
   \<and> map_option fst (get_execution_plan 4 WorkflowManager_init cycle_workflow) = Some None"
  by code_simp

lemma diamond_workflow_accepted:
  "map_option fst (validate_workflow 5 WorkflowManager_init diamond_workflow) = Some True"
  by code_simp

text \<open>
  C3: \<open>validate_workflow\<close> returns true if and only if the workflow has at least one
  task, its dependency relation is acyclic and every dependency id is the id of a task of
  the same workflow. The search \<open>_has_cycle\<close> is recursive: the result is reached as
  soon as the interpreter allows more nested calls than the workflow has tasks (otherwise
  Python raises \<open>RecursionError\<close>). The workflow A, B, C in which each task depends on
  the one before it and A on C is rejected and \<open>get_execution_plan\<close> returns no plan for
  it; the diamond A, B, C, D is accepted.
\<close>

theorem validate_workflow_correct:
  "(length (tasks w) < d \<longrightarrow>
      (\<exists>m1. validate_workflow d m w
          = Some (tasks w \<noteq> [] \<and> acyclic (depends_on w)
                  \<and> Range (depends_on w) \<subseteq> fst ` set (tasks w), m1)))
   \<and> map_option fst (validate_workflow 4 WorkflowManager_init cycle_workflow) = Some False
   \<and> map_option fst (get_execution_plan 4 WorkflowManager_init cycle_workflow) = Some None
   \<and> map_option fst (validate_workflow 5 WorkflowManager_init diamond_workflow) = Some True"
  using validate_workflow_result [of w d m] cycle_workflow_rejected diamond_workflow_accepted
  by blast

theorem validate_workflow_correct_witness:
  "length (tasks diamond_workflow) < 5
   \<and> map_option fst (validate_workflow 5 WorkflowManager_init diamond_workflow) = Some True
   \<and> tasks diamond_workflow \<noteq> []
   \<and> acyclic (depends_on diamond_workflow)
   \<and> Range (depends_on diamond_workflow) \<subseteq> fst ` set (tasks diamond_workflow)"
proof -
  have l: "length (tasks diamond_workflow) < 5" by code_simp
  from validate_workflow_correct [of diamond_workflow 5 WorkflowManager_init] l
  obtain m1 where "validate_workflow 5 WorkflowManager_init diamond_workflow
          = Some (tasks diamond_workflow \<noteq> [] \<and> acyclic (depends_on diamond_workflow)
                  \<and> Range (depends_on diamond_workflow) \<subseteq> fst ` set (tasks diamond_workflow), m1)"
    by blast
  then show ?thesis using diamond_workflow_accepted l by simp
qed

subsection \<open>Termination of the critical path computation\<close>

lemma chain_trancl:
  assumes "\<forall>i<n. (f i, f (Suc i)) \<in> R"
  shows "i < j \<Longrightarrow> j \<le> n \<Longrightarrow> (f i, f j) \<in> R\<^sup>+"
proof (induction j)
  case 0
  then show ?case by simp
next
  case (Suc j)
  have step: "(f j, f (Suc j)) \<in> R" using assms Suc.prems(2) by simp
  show ?case
  proof (cases "i = j")
    case True
    then show ?thesis using step by auto
  next
    case False
    then have "(f i, f j) \<in> R\<^sup>+" using Suc by simp
    then show ?thesis using step by (rule trancl_into_trancl)
  qed
qed

lemma path_bound:
  assumes ac: "acyclic R" and fin: "finite (Domain R)" and p: "(a, b) \<in> R ^^ n"
  shows "n \<le> card (Domain R)"
proof -
  from p obtain f where f: "f 0 = a" "f n = b" "\<forall>i<n. (f i, f (Suc i)) \<in> R"
    unfolding relpow_fun_conv by blast
  have inj: "inj_on f {0..<n}"
  proof (rule inj_onI)
    fix i j assume i: "i \<in> {0..<n}" and j: "j \<in> {0..<n}" and e: "f i = f j"
    show "i = j"
    proof (rule ccontr)
      assume ne: "i \<noteq> j"
      have "(f i, f i) \<in> R\<^sup>+"
      proof (cases "i < j")
        case True
        then show ?thesis using chain_trancl [OF f(3), of i j] j e by simp
      next
        case False
        then have "j < i" using ne by simp
        then show ?thesis using chain_trancl [OF f(3), of j i] i e by simp
      qed
      then show False using ac by (simp add: acyclic_def)
    qed
  qed
  have "f ` {0..<n} \<subseteq> Domain R" using f(3) by auto
  then have "card (f ` {0..<n}) \<le> card (Domain R)" using fin by (rule card_mono [rotated])
  then show ?thesis using inj by (simp add: card_image)
qed

lemma calculate_returns:
  "\<forall>x. (t, x) \<notin> (graph_edges g) ^^ d \<Longrightarrow> calculate_length d g t pl \<noteq> None"
  "\<forall>s \<in> set ds. \<forall>x. (s, x) \<notin> (graph_edges g) ^^ d \<Longrightarrow> calculate_deps d g ds acc pl \<noteq> None"
proof (induction d g t pl and d g ds acc pl rule: calculate_length_calculate_deps.induct)
  case (1 graph tid path_lengths)
  then show ?case by auto
next
  case (2 depth graph tid path_lengths)
  show ?case
  proof (cases "map_of path_lengths tid")
    case (Some a)
    then show ?thesis by simp
  next
    case None
    have "\<forall>s \<in> set (neighbors graph tid). \<forall>x. (s, x) \<notin> (graph_edges graph) ^^ depth"
    proof (intro ballI allI notI)
      fix s x assume s: "s \<in> set (neighbors graph tid)" and x: "(s, x) \<in> graph_edges graph ^^ depth"
      have "(tid, s) \<in> graph_edges graph" using s by (simp add: graph_edges_def)
      then have "(tid, x) \<in> graph_edges graph ^^ Suc depth" using x by (rule relpow_Suc_I2)
      then show False using "2.prems" by blast
    qed
    then have "calculate_deps depth graph (neighbors graph tid) 0 path_lengths \<noteq> None"
      by (rule "2.IH" [OF None])
    then show ?thesis using None by (auto split: option.splits)
  qed
next
  case (3 depth graph max_dep_length path_lengths)
  then show ?case by simp
next
  case (4 depth graph dep_id rest max_dep_length path_lengths)
  have "calculate_length depth graph dep_id path_lengths \<noteq> None"
    using "4.IH"(1) "4.prems" by simp
  then obtain len pl1 where run: "calculate_length depth graph dep_id path_lengths = Some (len, pl1)"
    by auto
  have "calculate_deps depth graph rest (max max_dep_length len) pl1 \<noteq> None"
    using "4.IH"(2) [OF run refl] "4.prems" by simp
  then show ?case using run by simp
qed

lemma calculate_all_returns:
  "\<forall>s \<in> set ts. \<forall>x. (s, x) \<notin> (graph_edges g) ^^ d \<Longrightarrow> calculate_all d g ts pl \<noteq> None"
proof (induction ts arbitrary: pl)
  case Nil
  then show ?case by simp
next
  case (Cons t ts)
  have "calculate_length d g t pl \<noteq> None" using calculate_returns(1) Cons.prems by simp
  then obtain len pl1 where "calculate_length d g t pl = Some (len, pl1)" by auto
  then show ?case using Cons by simp
qed

lemma on_cycle_successor:
  assumes "t \<in> on_cycle g"
  shows "\<exists>s \<in> set (neighbors g t). s \<in> on_cycle g"
proof -
  from assms have "(t, t) \<in> (graph_edges g)\<^sup>+" by (simp add: on_cycle_def)
  then obtain s where s: "(t, s) \<in> graph_edges g" "(s, t) \<in> (graph_edges g)\<^sup>*"
    by (meson tranclD)
  then have "(s, s) \<in> (graph_edges g)\<^sup>+" by (meson rtrancl_into_trancl1)
  then show ?thesis using s(1) by (auto simp add: on_cycle_def graph_edges_def)
qed

lemma update_keys: "fst ` set (AList.update k v al) = insert k (fst ` set al)"
  by (induction al) auto

lemma calculate_avoids_cycles:
  "calculate_length d g t pl = Some (len, pl1) \<Longrightarrow> fst ` set pl \<inter> on_cycle g = {} \<Longrightarrow>
     fst ` set pl1 \<inter> on_cycle g = {} \<and> t \<notin> on_cycle g"
  "calculate_deps d g ds acc pl = Some (len, pl1) \<Longrightarrow> fst ` set pl \<inter> on_cycle g = {} \<Longrightarrow>
     fst ` set pl1 \<inter> on_cycle g = {} \<and> set ds \<inter> on_cycle g = {}"
proof (induction d g t pl and d g ds acc pl arbitrary: len pl1 and len pl1
        rule: calculate_length_calculate_deps.induct)
  case (1 graph tid path_lengths)
  then show ?case by simp
next
  case (2 depth graph tid path_lengths)
  show ?case
  proof (cases "map_of path_lengths tid")
    case (Some a)
    then have "pl1 = path_lengths" using "2.prems"(1) by simp
    moreover have "(tid, a) \<in> set path_lengths" using Some by (rule map_of_SomeD)
    then have "tid \<in> fst ` set path_lengths" by force
    ultimately show ?thesis using "2.prems"(2) by auto
  next
    case None
    from "2.prems"(1) None obtain m pl2 where
      run: "calculate_deps depth graph (neighbors graph tid) 0 path_lengths = Some (m, pl2)"
      and res: "pl1 = AList.update tid (m + 1) pl2"
      by (auto split: option.splits)
    from "2.IH" [OF None run "2.prems"(2)] have
      c: "fst ` set pl2 \<inter> on_cycle graph = {}" and nb: "set (neighbors graph tid) \<inter> on_cycle graph = {}"
      by simp_all
    have t: "tid \<notin> on_cycle graph" using on_cycle_successor [of tid graph] nb by blast
    then show ?thesis using c by (simp add: res update_keys)
  qed
next
  case (3 depth graph max_dep_length path_lengths)
  then show ?case by simp
next
  case (4 depth graph dep_id rest max_dep_length path_lengths)
  from "4.prems"(1) obtain l pl2 where
    run: "calculate_length depth graph dep_id path_lengths = Some (l, pl2)"
    and rest: "calculate_deps depth graph rest (max max_dep_length l) pl2 = Some (len, pl1)"
    by (auto split: option.splits)
  from "4.IH"(1) [OF run "4.prems"(2)] have
    a: "fst ` set pl2 \<inter> on_cycle graph = {}" "dep_id \<notin> on_cycle graph" by simp_all
  from "4.IH"(2) [OF run refl rest a(1)] a(2) show ?case by simp
qed

lemma calculate_all_avoids_cycles:
  "calculate_all d g ts pl = Some pl1 \<Longrightarrow> fst ` set pl \<inter> on_cycle g = {} \<Longrightarrow>
     set ts \<inter> on_cycle g = {}"
proof (induction ts arbitrary: pl)
  case Nil
  then show ?case by simp
next
  case (Cons t ts)
  from Cons.prems(1) obtain l pl2 where
    run: "calculate_length d g t pl = Some (l, pl2)"
    and rest: "calculate_all d g ts pl2 = Some pl1"
    by (auto split: option.splits)
  from calculate_avoids_cycles(1) [OF run Cons.prems(2)] Cons.IH [OF rest] show ?case by simp
qed

lemma depends_on_domain: "Domain (depends_on w) \<subseteq> fst ` set (tasks w)"
  by (force simp add: depends_on_def)

lemma critical_path_terminates:
  assumes g: "graph_edges (dependency_graph r) = depends_on w"
  shows "acyclic (depends_on w) \<Longrightarrow> length (tasks w) < d \<Longrightarrow> get_critical_path d r w \<noteq> None"
    and "\<not> acyclic (depends_on w) \<Longrightarrow> get_critical_path d r w = None"
proof -
  let ?E = "depends_on w"
  let ?K = "fst ` set (tasks w)"
  have finD: "finite (Domain ?E)" using depends_on_domain by (rule finite_subset) simp
  have cardD: "card (Domain ?E) \<le> length (tasks w)"
  proof -
    have "card (Domain ?E) \<le> card ?K" using depends_on_domain by (intro card_mono) simp_all
    also have "\<dots> \<le> length (tasks w)"
      by (metis card_image_le card_length le_trans List.finite_set)
    finally show ?thesis .
  qed
  show "get_critical_path d r w \<noteq> None" if ac: "acyclic ?E" and d: "length (tasks w) < d"
  proof -
    have "\<forall>s \<in> set (map fst (tasks w)). \<forall>x. (s, x) \<notin> (graph_edges (dependency_graph r)) ^^ d"
    proof (intro ballI allI notI)
      fix s x assume "(s, x) \<in> graph_edges (dependency_graph r) ^^ d"
      then have "d \<le> card (Domain ?E)" using path_bound [OF ac finD] g by simp
      then show False using cardD d by simp
    qed
    then show ?thesis
      using calculate_all_returns [where ts = "map fst (tasks w)" and g = "dependency_graph r"
          and d = d and pl = "[]"]
      by (simp add: get_critical_path_def path_lengths_of_def)
  qed
  show "get_critical_path d r w = None" if nac: "\<not> acyclic ?E"
  proof (rule ccontr)
    assume "get_critical_path d r w \<noteq> None"
    then obtain pl1 where
      run: "calculate_all d (dependency_graph r) (map fst (tasks w)) [] = Some pl1"
      by (auto simp add: get_critical_path_def path_lengths_of_def)
    from calculate_all_avoids_cycles [OF run] have
      clean: "?K \<inter> on_cycle (dependency_graph r) = {}" by simp
    from nac obtain x where x: "(x, x) \<in> ?E\<^sup>+" by (auto simp add: acyclic_def)
    then have "x \<in> Domain ?E" by (meson Domain.DomainI tranclD)
    then have "x \<in> ?K" using depends_on_domain by blast
    moreover have "x \<in> on_cycle (dependency_graph r)" using x g by (simp add: on_cycle_def)
    ultimately show False using clean by blast
  qed
qed

lemma build_graph_edges:
  assumes "build_graph d0 r0 w = Some (ok, r)"
  shows "graph_edges (dependency_graph r) = depends_on w"
proof -
  have "r = add_tasks (r0\<lparr>dependency_graph := Map.empty, reverse_graph := Map.empty\<rparr>) (tasks w)"
    using assms by (auto simp add: build_graph_def Let_def split: option.splits bool.splits)
  then show ?thesis by (simp add: built_graph_edges)
qed

lemma example_graphs:
  "build_graph 5 DependencyResolver_init diamond_workflow \<noteq> None
   \<and> fst (the (build_graph 5 DependencyResolver_init diamond_workflow)) = True
   \<and> build_graph 4 DependencyResolver_init cycle_workflow \<noteq> None
   \<and> fst (the (build_graph 4 DependencyResolver_init cycle_workflow)) = False
   \<and> length (tasks diamond_workflow) = 4 \<and> length (tasks cycle_workflow) = 3"
  by code_simp

lemma diamond_acyclic: "acyclic (depends_on diamond_workflow)"
proof -
  have "length (tasks diamond_workflow) < 5" using example_graphs by simp
  from build_graph_correct [OF this, of DependencyResolver_init] example_graphs
  show ?thesis by auto
qed

lemma cycle_not_acyclic: "\<not> acyclic (depends_on cycle_workflow)"
proof -
  have "length (tasks cycle_workflow) < 4" using example_graphs by simp
  from build_graph_correct [OF this, of DependencyResolver_init] example_graphs
  show ?thesis by auto
qed

text \<open>
  C10: after \<open>build_graph\<close> has stored the dependencies of a workflow,
  \<open>get_critical_path\<close> returns for every workflow whose dependency relation is acyclic, as
  soon as the interpreter allows more nested calls than the workflow has tasks: the
  recursion \<open>calculate_length\<close> follows dependency edges, and a chain of edges of an
  acyclic relation is no longer than the number of tasks. Acyclicity is necessary:
  \<open>calculate_length\<close> has no cycle guard, so on a workflow with a dependency cycle the
  recursion exceeds every depth limit and \<open>get_critical_path\<close> never returns a path.
\<close>

theorem get_critical_path_terminates:
  assumes "build_graph d0 r0 w = Some (ok, r)"
  shows "(acyclic (depends_on w) \<longrightarrow> (\<forall>d > length (tasks w). get_critical_path d r w \<noteq> None))
       \<and> (\<not> acyclic (depends_on w) \<longrightarrow> (\<forall>d. get_critical_path d r w = None))"
  using critical_path_terminates [OF build_graph_edges [OF assms]] by blast

theorem get_critical_path_terminates_witness:
  "build_graph 5 DependencyResolver_init diamond_workflow
     = Some (the (build_graph 5 DependencyResolver_init diamond_workflow))
   \<and> acyclic (depends_on diamond_workflow)
   \<and> get_critical_path 5 (snd (the (build_graph 5 DependencyResolver_init diamond_workflow)))
        diamond_workflow \<noteq> None
   \<and> build_graph 4 DependencyResolver_init cycle_workflow
     = Some (the (build_graph 4 DependencyResolver_init cycle_workflow))
   \<and> \<not> acyclic (depends_on cycle_workflow)
   \<and> (\<forall>d. get_critical_path d (snd (the (build_graph 4 DependencyResolver_init cycle_workflow)))
        cycle_workflow = None)"
proof -
  have b1: "build_graph 5 DependencyResolver_init diamond_workflow
     = Some (fst (the (build_graph 5 DependencyResolver_init diamond_workflow)),
             snd (the (build_graph 5 DependencyResolver_init diamond_workflow)))"
    using example_graphs by (cases "build_graph 5 DependencyResolver_init diamond_workflow") auto
  have b2: "build_graph 4 DependencyResolver_init cycle_workflow
     = Some (fst (the (build_graph 4 DependencyResolver_init cycle_workflow)),
             snd (the (build_graph 4 DependencyResolver_init cycle_workflow)))"
    using example_graphs by (cases "build_graph 4 DependencyResolver_init cycle_workflow") auto
  show ?thesis
    using get_critical_path_terminates [OF b1] get_critical_path_terminates [OF b2]
      diamond_acyclic cycle_not_acyclic example_graphs by simp
qed

subsection \<open>The critical path\<close>

































end
